theory Spec2Isabelle
  imports Complex_Main
begin

section \<open>Muon optimizer of \<open>nanogpt/train_spectral_normalize.py\<close>\<close>

text \<open>
  The development embeds the numeric kernels (\<open>orthogonalize\<close>, \<open>_power_iteration\<close>), the
  momentum update and the sharded, pipelined loop of \<open>Muon.step\<close>.

  Numbers are real numbers: the rounding of bfloat16 and float32 is not modelled, only the
  arithmetic the source writes. A 2-D tensor is the list of its rows; its shape is
  (number of rows, length of the first row). Python exceptions are values of \<open>error\<close>.
\<close>

subsection \<open>Errors, vectors and matrices\<close>

datatype error =
    ValueError          \<comment> \<open>slice step cannot be zero\<close>
  | AssertionError      \<comment> \<open>\<open>assert g is not None\<close>\<close>
  | AttributeError      \<comment> \<open>\<open>handle.wait()\<close> with \<open>handle = None\<close>\<close>
  | IndexError          \<comment> \<open>tuple or list index out of range\<close>
  | ZeroDivisionError   \<comment> \<open>Python float division \<open>rows / cols\<close> with \<open>cols = 0\<close>\<close>
  | RuntimeError        \<comment> \<open>\<open>view_as\<close> on a tensor with another number of elements\<close>

type_synonym vec = "real list"
type_synonym mat = "real list list"

definition rows :: "mat \<Rightarrow> nat" where
  "rows X = length X"

definition cols :: "mat \<Rightarrow> nat" where
  "cols X = (case X of [] \<Rightarrow> 0 | r # _ \<Rightarrow> length r)"

definition dot :: "vec \<Rightarrow> vec \<Rightarrow> real" where
  "dot u v = sum_list (map2 (*) u v)"

definition mT :: "mat \<Rightarrow> mat" where
  "mT X = transpose X"

definition matmul :: "mat \<Rightarrow> mat \<Rightarrow> mat" where
  "matmul A B = map (\<lambda>r. map (\<lambda>c. dot r c) (transpose B)) A"

definition smul :: "real \<Rightarrow> mat \<Rightarrow> mat" where
  "smul k X = map (map ((*) k)) X"

definition madd :: "mat \<Rightarrow> mat \<Rightarrow> mat" where
  "madd A B = map2 (map2 (+)) A B"

definition mdiv :: "mat \<Rightarrow> real \<Rightarrow> mat" where
  "mdiv X d = map (map (\<lambda>x. x / d)) X"

definition flatten :: "mat \<Rightarrow> vec" where
  "flatten X = concat X"

definition vnorm :: "vec \<Rightarrow> real" where
  "vnorm u = sqrt (sum_list (map (\<lambda>x. x\<^sup>2) u))"

definition fnorm :: "mat \<Rightarrow> real" where
  \<comment> \<open>\<open>X.norm(dim=(-2, -1))\<close>: the Frobenius norm\<close>
  "fnorm X = vnorm (flatten X)"

subsection \<open>The orthogonalizer\<close>

definition abc_list :: "(real \<times> real \<times> real) list" where
  "abc_list =
    [(4.0848, -6.8946, 2.9270),
     (3.9505, -6.3029, 2.6377),
     (3.7418, -5.5913, 2.3037),
     (2.8769, -3.1427, 1.2046),
     (2.8366, -3.0525, 1.2012)]"

definition ns_step :: "mat \<Rightarrow> real \<times> real \<times> real \<Rightarrow> mat" where
  \<comment> \<open>one pass of the loop body; \<open>c * A @ A\<close> parses as \<open>(c * A) @ A\<close>\<close>
  "ns_step X abc = (case abc of (a, b, c) \<Rightarrow>
     let A = matmul X (mT X);
         B = madd (smul b A) (matmul (smul c A) A)
     in madd (smul a X) (matmul B X))"

definition orthogonalize :: "mat \<Rightarrow> mat" where
  "orthogonalize M =
    (let X = M;
         transpose = rows X > cols X;
         X = (if transpose then mT X else X);
         X = mdiv X (fnorm X + 1 / 10 ^ 7);
         X = foldl ns_step X abc_list;
         X = (if transpose then mT X else X)
     in X)"

text \<open>
  The algorithm as the specification words it: orient wide, normalise by the Frobenius norm
  plus \<open>1e-7\<close>, run one quintic step per coefficient triple, restore the orientation.
\<close>

definition quintic_spec :: "real \<Rightarrow> real \<Rightarrow> real \<Rightarrow> mat \<Rightarrow> mat" where
  "quintic_spec a b c X =
    (let A = matmul X (mT X);
         B = madd (smul b A) (smul c (matmul A A))
     in madd (smul a X) (matmul B X))"

fun iterate_spec :: "(real \<times> real \<times> real) list \<Rightarrow> mat \<Rightarrow> mat" where
  "iterate_spec [] X = X"
| "iterate_spec ((a, b, c) # tbl) X = iterate_spec tbl (quintic_spec a b c X)"

definition normalize_spec :: "mat \<Rightarrow> mat" where
  "normalize_spec X = mdiv X (fnorm X + 1 / 10 ^ 7)"

definition orthogonalize_spec :: "(real \<times> real \<times> real) list \<Rightarrow> mat \<Rightarrow> mat" where
  "orthogonalize_spec tbl G =
    (if rows G > cols G then mT (iterate_spec tbl (normalize_spec (mT G)))
     else iterate_spec tbl (normalize_spec G))"

subsection \<open>Tensors of any number of dimensions\<close>

text \<open>
  \<open>orthogonalize\<close> reads \<open>shape[-2]\<close> and \<open>shape[-1]\<close> and uses \<open>.mT\<close>,
  \<open>norm(dim=(-2, -1), keepdim=True)\<close> and \<open>@\<close>, which all act on the last two dimensions of
  a tensor and on each matrix of a batch separately. A tensor of two or more dimensions is
  its batch shape with the list of its matrices (a plain matrix has batch shape \<open>[]\<close>).
\<close>

datatype tensor =
    Scalar real
  | Vector vec
  | Batched "nat list" "mat list"

fun ndim :: "tensor \<Rightarrow> nat" where
  "ndim (Scalar _) = 0"
| "ndim (Vector _) = 1"
| "ndim (Batched bs _) = length bs + 2"

fun orthogonalize_t :: "tensor \<Rightarrow> error + tensor" where
  "orthogonalize_t (Scalar _) = Inl IndexError"
| "orthogonalize_t (Vector _) = Inl IndexError"
| "orthogonalize_t (Batched bs ms) = Inr (Batched bs (map orthogonalize ms))"

subsection \<open>Round-robin sharding\<close>

definition shard_bases :: "nat \<Rightarrow> nat \<Rightarrow> error + nat list" where
  \<comment> \<open>\<open>range(len(params))[::world_size]\<close>\<close>
  "shard_bases n w =
    (if w = 0 then Inl ValueError else Inr (map (\<lambda>k. k * w) [0..<(n + w - 1) div w]))"

definition assigned :: "nat \<Rightarrow> nat \<Rightarrow> nat \<Rightarrow> nat option" where
  \<comment> \<open>\<open>if base_i + self.rank < len(params)\<close>: the index of the parameter a device works
      on at a shard step, if any\<close>
  "assigned n base_i rank = (if base_i + rank < n then Some (base_i + rank) else None)"

subsection \<open>The spectral norm estimator\<close>

definition vecmat :: "vec \<Rightarrow> mat \<Rightarrow> vec" where
  \<comment> \<open>\<open>u @ M\<close> for a 1-D \<open>u\<close>\<close>
  "vecmat u M = map (\<lambda>c. dot u c) (transpose M)"

definition vdiv :: "vec \<Rightarrow> real \<Rightarrow> vec" where
  "vdiv u d = map (\<lambda>x. x / d) u"

definition pi_step :: "mat \<Rightarrow> vec \<Rightarrow> vec" where
  \<comment> \<open>one pass of the loop of \<open>_power_iteration\<close>\<close>
  "pi_step M u =
    (let v = vecmat u M;
         u = vecmat v (mT M)
     in vdiv u (vnorm u + 1 / 10 ^ 8))"

definition power_iteration_from :: "mat \<Rightarrow> vec \<Rightarrow> real" where
  \<comment> \<open>\<open>_power_iteration\<close> after the start vector is drawn\<close>
  "power_iteration_from M u0 = (let u = ((pi_step M) ^^ 26) u0 in vnorm (vecmat u M))"

text \<open>
  \<open>torch.randn\<close> reads the global generator. The generator is a stream \<open>rnd\<close> of reals and
  a position in it; a draw of \<open>n\<close> numbers takes the next \<open>n\<close>. \<open>_power_iteration(M)\<close> is
  the draw of \<open>rows M\<close> numbers followed by \<open>power_iteration_from\<close>.
\<close>

definition randn :: "(nat \<Rightarrow> real) \<Rightarrow> nat \<Rightarrow> nat \<Rightarrow> vec \<times> nat" where
  "randn rnd pos n = (map rnd [pos..<pos + n], pos + n)"

subsection \<open>Hyperparameters, parameters and the state of one group\<close>

record cfg =
  lr :: real
  momentum :: real
  nesterov :: bool
  w_max :: real
  rank :: nat
  world_size :: nat

record param =
  data :: mat
  grad :: "mat option"               \<comment> \<open>\<open>p.grad\<close>\<close>
  momentum_buffer :: "mat option"    \<comment> \<open>\<open>self.state[p]["momentum_buffer"]\<close>, if present\<close>

text \<open>
  The three phases of a shard step, logged in the order the code reaches them. The log is
  instrumentation of the model; the code keeps no such list.
\<close>

datatype event = Iterate nat | Gather nat | Apply nat

text \<open>
  The handle of an asynchronous all-gather: pending, holding the rows that \<open>wait\<close> makes
  visible in \<open>update_buffer\<close>, or completed. It carries the \<open>base_i\<close> it was issued at.
\<close>

datatype work = Pending nat "vec list" | Done nat

text \<open>
  What a device hands to the all-gather: a fresh tensor, or its own row of
  \<open>update_buffer\<close>, which is a view and is read when the gather is issued.
\<close>

datatype contrib = Fresh vec | BufferView nat

record state =
  params :: "param list"
  update_buffer :: "vec list"        \<comment> \<open>row \<open>i\<close> is \<open>update_buffer_views[i]\<close>\<close>
  handle :: "work option"
  params_world :: "nat list"         \<comment> \<open>the indices of \<open>params[base_i : base_i + world_size]\<close>\<close>
  rng_pos :: nat
  trace :: "event list"

subsection \<open>The momentum store\<close>

definition lerp :: "mat \<Rightarrow> mat \<Rightarrow> real \<Rightarrow> mat" where
  \<comment> \<open>\<open>torch.lerp(start, end, weight) = start + weight * (end - start)\<close>\<close>
  "lerp s e w = map2 (map2 (\<lambda>x y. x + w * (y - x))) s e"

definition zeros_like :: "mat \<Rightarrow> mat" where
  "zeros_like g = map (map (\<lambda>_. 0)) g"

definition momentum_update :: "cfg \<Rightarrow> mat \<Rightarrow> mat option \<Rightarrow> mat \<times> mat \<times> mat" where
  \<comment> \<open>returns the effective update, the new buffer and the new content of \<open>p.grad\<close>
      (\<open>g.lerp_\<close> writes the gradient in place)\<close>
  "momentum_update c g st =
    (let buf = (case st of None \<Rightarrow> zeros_like g | Some b \<Rightarrow> b);
         buf = lerp buf g (1 - momentum c)
     in if nesterov c then (let g = lerp g buf (momentum c) in (g, buf, g))
        else (buf, buf, g))"

subsection \<open>APPLY: \<open>update_prev\<close>\<close>

fun unflatten :: "nat \<Rightarrow> nat \<Rightarrow> vec \<Rightarrow> mat" where
  "unflatten 0 c g = []"
| "unflatten (Suc r) c g = take c g # unflatten r c (drop c g)"

definition view_as :: "vec \<Rightarrow> mat \<Rightarrow> error + mat" where
  "view_as g p =
    (if length g \<noteq> rows p * cols p then Inl RuntimeError
     else Inr (unflatten (rows p) (cols p) g))"

definition scale_of :: "mat \<Rightarrow> real" where
  \<comment> \<open>\<open>torch.sqrt(torch.tensor(p.size(-2) / p.size(-1)))\<close>\<close>
  "scale_of p = sqrt (real (rows p) / real (cols p))"

definition rescale :: "cfg \<Rightarrow> real \<Rightarrow> real \<Rightarrow> mat \<Rightarrow> mat" where
  \<comment> \<open>\<open>scale_down = maximum(1.0, sigma_max / (w_max * scale))\<close>, then
      \<open>p.div_(scale_down + 1e-12)\<close>; it is the code's arithmetic where \<open>w_max * scale\<close> is
      not zero (a zero cap divides by zero, see \<open>rescale_fl\<close>)\<close>
  "rescale c scale sigma_max p =
    (let scale_down = max 1 (sigma_max / (w_max c * scale))
     in mdiv p (scale_down + 1 / 10 ^ 12))"

definition apply_update :: "cfg \<Rightarrow> mat \<Rightarrow> vec \<Rightarrow> vec \<Rightarrow> error + mat" where
  \<comment> \<open>the body of the loop of \<open>update_prev\<close> for one pair, with the start vector \<open>u\<close> that
      \<open>_power_iteration\<close> draws\<close>
  "apply_update c p_world g_world u =
    (if cols p_world = 0 then Inl ZeroDivisionError
     else let scale = scale_of p_world in
       case view_as g_world p_world of
         Inl e \<Rightarrow> Inl e
       | Inr g \<Rightarrow>
           let p = madd p_world (smul (- lr c * scale) g);
               sigma_max = power_iteration_from p u
           in Inr (rescale c scale sigma_max p))"

definition apply_param :: "cfg \<Rightarrow> (nat \<Rightarrow> real) \<Rightarrow> nat \<Rightarrow> vec \<Rightarrow> state \<Rightarrow> error + state" where
  \<comment> \<open>one pass of \<open>for p_world, g_world in zip(params_world, update_buffer_views)\<close> on the
      parameter of index \<open>i\<close>, with the draw of \<open>_power_iteration\<close>\<close>
  "apply_param c rnd i g_world st =
    (let p_world = params st ! i in
     case randn rnd (rng_pos st) (rows (data p_world)) of (u, pos') \<Rightarrow>
       case apply_update c (data p_world) g_world u of
         Inl e \<Rightarrow> Inl e
       | Inr p' \<Rightarrow>
           Inr (st\<lparr>params := (params st)[i := p_world\<lparr>data := p'\<rparr>], rng_pos := pos'\<rparr>))"

fun apply_all :: "cfg \<Rightarrow> (nat \<Rightarrow> real) \<Rightarrow> (nat \<times> vec) list \<Rightarrow> state \<Rightarrow> error + state" where
  "apply_all c rnd [] st = Inr st"
| "apply_all c rnd ((i, g_world) # rest) st =
    (case apply_param c rnd i g_world st of
       Inl e \<Rightarrow> Inl e
     | Inr st' \<Rightarrow> apply_all c rnd rest st')"

definition wait :: "state \<Rightarrow> error + state" where
  \<comment> \<open>\<open>handle.wait()\<close>\<close>
  "wait st =
    (case handle st of
       None \<Rightarrow> Inl AttributeError
     | Some (Pending b rs) \<Rightarrow> Inr (st\<lparr>update_buffer := rs, handle := Some (Done b)\<rparr>)
     | Some (Done b) \<Rightarrow> Inr st)"

definition handle_base :: "state \<Rightarrow> nat" where
  "handle_base st = (case handle st of Some (Pending b _) \<Rightarrow> b | Some (Done b) \<Rightarrow> b | None \<Rightarrow> 0)"

definition update_prev :: "cfg \<Rightarrow> (nat \<Rightarrow> real) \<Rightarrow> state \<Rightarrow> error + state" where
  "update_prev c rnd st =
    (case wait st of
       Inl e \<Rightarrow> Inl e
     | Inr st1 \<Rightarrow>
         apply_all c rnd (zip (params_world st1) (update_buffer st1))
           (st1\<lparr>trace := trace st1 @ [Apply (handle_base st1)]\<rparr>))"

subsection \<open>ITERATE, GATHER and the loop of \<open>Muon.step\<close>\<close>

definition iterate :: "cfg \<Rightarrow> nat \<Rightarrow> state \<Rightarrow> error + (contrib \<times> state)" where
  "iterate c base_i st0 =
    (let st = st0\<lparr>trace := trace st0 @ [Iterate base_i]\<rparr> in
     case assigned (length (params st)) base_i (rank c) of
       Some i \<Rightarrow>
         (let p = params st ! i in
          case grad p of
            None \<Rightarrow> Inl AssertionError
          | Some g \<Rightarrow>
              (case momentum_update c g (momentum_buffer p) of (g', buf, g_grad) \<Rightarrow>
                 Inr (Fresh (flatten (orthogonalize g')),
                      st\<lparr>params := (params st)[i :=
                            p\<lparr>grad := Some g_grad, momentum_buffer := Some buf\<rparr>]\<rparr>)))
     | None \<Rightarrow>
         if rank c < length (update_buffer st) then Inr (BufferView (rank c), st)
         else Inl IndexError)"

definition resolve :: "state \<Rightarrow> contrib \<Rightarrow> error + vec" where
  "resolve st g =
    (case g of
       Fresh v \<Rightarrow> Inr v
     | BufferView r \<Rightarrow>
         if r < length (update_buffer st) then Inr (update_buffer st ! r) else Inl IndexError)"

text \<open>
  The other devices are the environment: \<open>peers base_i r\<close> is what device \<open>r\<close> hands to the
  all-gather issued at \<open>base_i\<close>. The gathered rows are the peers' rows with this device's
  own row in its slot.
\<close>

definition all_gather :: "cfg \<Rightarrow> (nat \<Rightarrow> nat \<Rightarrow> vec) \<Rightarrow> nat \<Rightarrow> vec \<Rightarrow> vec list" where
  "all_gather c peers base_i g =
    map (\<lambda>r. if r = rank c then g else peers base_i r) [0..<world_size c]"

definition gather :: "cfg \<Rightarrow> (nat \<Rightarrow> nat \<Rightarrow> vec) \<Rightarrow> nat \<Rightarrow> contrib \<Rightarrow> state \<Rightarrow> error + state" where
  \<comment> \<open>\<open>handle = dist.all_gather_into_tensor(update_buffer, g, async_op=True)\<close> and
      \<open>params_world = params[base_i : base_i + self.world_size]\<close>\<close>
  "gather c peers base_i g st =
    (case resolve st g of
       Inl e \<Rightarrow> Inl e
     | Inr v \<Rightarrow>
         Inr (st\<lparr>handle := Some (Pending base_i (all_gather c peers base_i v)),
                 params_world := [base_i..<min (base_i + world_size c) (length (params st))],
                 trace := trace st @ [Gather base_i]\<rparr>))"

definition shard_step ::
  "cfg \<Rightarrow> (nat \<Rightarrow> real) \<Rightarrow> (nat \<Rightarrow> nat \<Rightarrow> vec) \<Rightarrow> nat \<Rightarrow> state \<Rightarrow> error + state" where
  \<comment> \<open>the body of \<open>for base_i in range(len(params))[::self.world_size]\<close>\<close>
  "shard_step c rnd peers base_i st =
    (case iterate c base_i st of
       Inl e \<Rightarrow> Inl e
     | Inr (g, st1) \<Rightarrow>
         (case (if base_i > 0 then update_prev c rnd st1 else Inr st1) of
            Inl e \<Rightarrow> Inl e
          | Inr st2 \<Rightarrow> gather c peers base_i g st2))"

fun step_loop ::
  "cfg \<Rightarrow> (nat \<Rightarrow> real) \<Rightarrow> (nat \<Rightarrow> nat \<Rightarrow> vec) \<Rightarrow> nat list \<Rightarrow> state \<Rightarrow> error + state" where
  "step_loop c rnd peers [] st = Inr st"
| "step_loop c rnd peers (base_i # bs) st =
    (case shard_step c rnd peers base_i st of
       Inl e \<Rightarrow> Inl e
     | Inr st' \<Rightarrow> step_loop c rnd peers bs st')"

definition step_group ::
  "cfg \<Rightarrow> (nat \<Rightarrow> real) \<Rightarrow> (nat \<Rightarrow> nat \<Rightarrow> vec) \<Rightarrow> state \<Rightarrow> error + state" where
  \<comment> \<open>the body of \<open>for group in self.param_groups\<close>, from \<open>handle = None\<close> to the last
      \<open>update_prev()\<close>\<close>
  "step_group c rnd peers st0 =
    (let st = st0\<lparr>handle := None, params_world := []\<rparr> in
     case shard_bases (length (params st)) (world_size c) of
       Inl e \<Rightarrow> Inl e
     | Inr bases \<Rightarrow>
         (case step_loop c rnd peers bases st of
            Inl e \<Rightarrow> Inl e
          | Inr st1 \<Rightarrow> update_prev c rnd st1))"

subsection \<open>Well-formed groups\<close>

text \<open>
  \<open>Muon.__init__\<close> groups the parameters by their number of elements and allocates
  \<open>update_buffer\<close> with \<open>world_size\<close> rows of that many elements. A group is well formed
  when every parameter is a non-empty rectangular matrix with \<open>sz\<close> elements, has a
  gradient of its shape, and a momentum buffer, if any, of its shape; when the buffer and
  every row a peer contributes have \<open>sz\<close> elements; and when the rank is below the world
  size. \<open>loop_inv\<close> is what the loop keeps between shard steps.
\<close>

definition rect :: "nat \<Rightarrow> nat \<Rightarrow> mat \<Rightarrow> bool" where
  "rect r k X \<longleftrightarrow> length X = r \<and> (\<forall>row \<in> set X. length row = k)"

definition param_ok :: "nat \<Rightarrow> param \<Rightarrow> bool" where
  "param_ok sz p \<longleftrightarrow>
     0 < cols (data p) \<and> rows (data p) * cols (data p) = sz \<and>
     rect (rows (data p)) (cols (data p)) (data p) \<and>
     (case grad p of None \<Rightarrow> False | Some g \<Rightarrow> rect (rows (data p)) (cols (data p)) g) \<and>
     (case momentum_buffer p of None \<Rightarrow> True
      | Some m \<Rightarrow> rect (rows (data p)) (cols (data p)) m)"

definition rows_ok :: "nat \<Rightarrow> nat \<Rightarrow> vec list \<Rightarrow> bool" where
  "rows_ok w sz rs \<longleftrightarrow> length rs = w \<and> (\<forall>row \<in> set rs. length row = sz)"

definition loop_inv :: "cfg \<Rightarrow> nat \<Rightarrow> state \<Rightarrow> bool" where
  "loop_inv c sz st \<longleftrightarrow>
     0 < world_size c \<and> rank c < world_size c \<and>
     rows_ok (world_size c) sz (update_buffer st) \<and>
     (\<forall>p \<in> set (params st). param_ok sz p) \<and>
     (case handle st of Some (Pending b rs) \<Rightarrow> rows_ok (world_size c) sz rs | _ \<Rightarrow> True) \<and>
     (\<forall>i \<in> set (params_world st). i < length (params st))"

definition group_ok :: "cfg \<Rightarrow> (nat \<Rightarrow> nat \<Rightarrow> vec) \<Rightarrow> nat \<Rightarrow> state \<Rightarrow> bool" where
  "group_ok c peers sz st \<longleftrightarrow>
     0 < world_size c \<and> rank c < world_size c \<and> params st \<noteq> [] \<and>
     rows_ok (world_size c) sz (update_buffer st) \<and>
     (\<forall>p \<in> set (params st). param_ok sz p) \<and>
     (\<forall>b r. length (peers b r) = sz)"

subsection \<open>The order of the phases\<close>

text \<open>
  The events of a run of the loop over the shard steps \<open>bs\<close>, entered with a handle issued
  at \<open>h\<close>: each step iterates, applies the previous shard unless it is the step at 0, and
  gathers.
\<close>

fun loop_events :: "nat \<Rightarrow> nat list \<Rightarrow> event list" where
  "loop_events h [] = []"
| "loop_events h (b # bs) =
    Iterate b # (if b > 0 then [Apply h] else []) @ Gather b # loop_events b bs"

fun is_gather :: "event \<Rightarrow> bool" where
  "is_gather (Gather _) = True"
| "is_gather _ = False"

fun is_apply :: "event \<Rightarrow> bool" where
  "is_apply (Apply _) = True"
| "is_apply _ = False"

subsection \<open>Non-finite estimates\<close>

text \<open>
  The reals have no NaN and no infinity. For the two lines of \<open>update_prev\<close> that turn the
  estimate into the divisor, the values are extended by the special values of IEEE 754
  (without rounding and without the sign of zero): \<open>torch.maximum\<close> returns NaN when
  either argument is NaN, and so do division and addition.
\<close>

datatype fl = Fin real | PInf | NInf | NaN

fun fl_div :: "fl \<Rightarrow> fl \<Rightarrow> fl" where
  "fl_div NaN _ = NaN"
| "fl_div _ NaN = NaN"
| "fl_div (Fin x) (Fin y) =
    (if y \<noteq> 0 then Fin (x / y) else if x = 0 then NaN else if 0 < x then PInf else NInf)"
| "fl_div (Fin x) _ = Fin 0"
| "fl_div PInf (Fin y) = (if 0 \<le> y then PInf else NInf)"
| "fl_div NInf (Fin y) = (if 0 \<le> y then NInf else PInf)"
| "fl_div _ _ = NaN"

fun fl_add :: "fl \<Rightarrow> fl \<Rightarrow> fl" where
  "fl_add NaN _ = NaN"
| "fl_add _ NaN = NaN"
| "fl_add (Fin x) (Fin y) = Fin (x + y)"
| "fl_add PInf NInf = NaN"
| "fl_add NInf PInf = NaN"
| "fl_add PInf _ = PInf"
| "fl_add _ PInf = PInf"
| "fl_add NInf _ = NInf"
| "fl_add _ NInf = NInf"

fun fl_maximum :: "fl \<Rightarrow> fl \<Rightarrow> fl" where
  "fl_maximum NaN _ = NaN"
| "fl_maximum _ NaN = NaN"
| "fl_maximum PInf _ = PInf"
| "fl_maximum _ PInf = PInf"
| "fl_maximum NInf y = y"
| "fl_maximum x NInf = x"
| "fl_maximum (Fin x) (Fin y) = Fin (max x y)"

definition scale_down_fl :: "cfg \<Rightarrow> real \<Rightarrow> fl \<Rightarrow> fl" where
  "scale_down_fl c scale sigma_max = fl_maximum (Fin 1) (fl_div sigma_max (Fin (w_max c * scale)))"

definition rescale_fl :: "cfg \<Rightarrow> real \<Rightarrow> fl \<Rightarrow> fl list list \<Rightarrow> fl list list" where
  "rescale_fl c scale sigma_max p =
    (let scale_down = scale_down_fl c scale sigma_max
     in map (map (\<lambda>x. fl_div x (fl_add scale_down (Fin (1 / 10 ^ 12))))) p)"

subsection \<open>A small run\<close>

text \<open>
  Three parameters and two devices, seen from device 0: shard steps at 0 and 2. The
  parameters are 1 x 1 and zero, with zero gradients, so that every value of the run is
  computed by rewriting.
\<close>

definition scenario_cfg :: cfg where
  "scenario_cfg = \<lparr>lr = 1/50, momentum = 19/20, nesterov = True, w_max = 1, rank = 0, world_size = 2\<rparr>"

definition zero_param :: param where
  "zero_param = \<lparr>data = [[0]], grad = Some [[0]], momentum_buffer = None\<rparr>"

definition scenario_state :: state where
  "scenario_state = \<lparr>params = [zero_param, zero_param, zero_param], update_buffer = [[0], [0]],
     handle = None, params_world = [], rng_pos = 0, trace = []\<rparr>"

definition scenario_final :: state where
  "scenario_final = \<lparr>params =
       [zero_param\<lparr>momentum_buffer := Some [[0]]\<rparr>, zero_param, zero_param\<lparr>momentum_buffer := Some [[0]]\<rparr>],
     update_buffer = [[0], [0]], handle = Some (Done 2), params_world = [2], rng_pos = 3,
     trace = [Iterate 0, Gather 0, Iterate 2, Apply 0, Gather 2, Apply 2]\<rparr>"

text \<open>
  One parameter and two devices, seen from device 1, which has no parameter to work on;
  its row of the gather buffer holds 5.
\<close>

definition placeholder_cfg :: cfg where
  "placeholder_cfg = scenario_cfg\<lparr>rank := 1\<rparr>"

definition placeholder_state :: state where
  "placeholder_state = \<lparr>params = [zero_param], update_buffer = [[0], [5]],
     handle = None, params_world = [], rng_pos = 0, trace = []\<rparr>"

text \<open>
  Two states at the point where APPLY runs, on one device with one parameter and a zero
  gathered update: a 1 x 1 parameter above the cap 1, and a 2 x 2 diagonal parameter whose
  largest singular value 4 is above the cap 1.
\<close>

definition capped_cfg :: cfg where
  "capped_cfg = scenario_cfg\<lparr>world_size := 1\<rparr>"

definition capped_state :: state where
  "capped_state = \<lparr>params = [\<lparr>data = [[2]], grad = Some [[0]], momentum_buffer = Some [[0]]\<rparr>],
     update_buffer = [[0]], handle = Some (Pending 0 [[0]]), params_world = [0], rng_pos = 0,
     trace = [Iterate 0, Gather 0]\<rparr>"

definition diag_state :: state where
  "diag_state = \<lparr>params = [\<lparr>data = [[4, 0], [0, 1]], grad = Some [[0, 0], [0, 0]],
       momentum_buffer = Some [[0, 0], [0, 0]]\<rparr>],
     update_buffer = [[0, 0, 0, 0]], handle = Some (Pending 0 [[0, 0, 0, 0]]),
     params_world = [0], rng_pos = 0, trace = [Iterate 0, Gather 0]\<rparr>"


section \<open>Properties\<close>

subsection \<open>Linear algebra on lists\<close>

lemma dot_scale_left: "dot (map ((*) k) u) v = k * dot u v"
  unfolding dot_def
  by (induction u arbitrary: v) (case_tac v; simp add: algebra_simps)+

lemma matmul_smul_left: "matmul (smul k A) B = smul k (matmul A B)"
  by (simp add: matmul_def smul_def dot_scale_left comp_def)

subsection \<open>The orthogonalizer follows its specification\<close>

lemma ns_step_quintic: "ns_step X (a, b, c) = quintic_spec a b c X"
  by (simp add: ns_step_def quintic_spec_def matmul_smul_left)

lemma foldl_ns_step: "foldl ns_step X tbl = iterate_spec tbl X"
  by (induction tbl X rule: iterate_spec.induct) (simp_all add: ns_step_quintic)

text \<open>
  Claim C3. For every matrix \<open>G\<close>, \<open>orthogonalize\<close> computes the specified algorithm:
  transpose when there are more rows than columns, divide by the Frobenius norm plus
  \<open>1e-7\<close>, apply the quintic step \<open>A = X X\<^sup>T\<close>, \<open>B = bA + cA\<^sup>2\<close>, \<open>X = aX + BX\<close> once per
  triple of the coefficient table, transpose back; the table has five triples.
\<close>

theorem orthogonalize_refines_spec:
  "orthogonalize G = orthogonalize_spec abc_list G \<and> length abc_list = 5"
proof
  show "orthogonalize G = orthogonalize_spec abc_list G"
    by (simp add: orthogonalize_def orthogonalize_spec_def normalize_spec_def foldl_ns_step Let_def)
  show "length abc_list = 5"
    by (simp add: abc_list_def)
qed

lemma ns_step_zero11: "ns_step [[0]] abc = [[0]]"
  by (cases abc) (simp add: ns_step_def matmul_def mT_def smul_def madd_def dot_def)

lemma foldl_ns_step_zero11: "foldl ns_step [[0]] tbl = [[0]]"
  by (induction tbl) (simp_all add: ns_step_zero11)

lemma orthogonalize_zero11: "orthogonalize [[0]] = [[0]]"
  by (simp add: orthogonalize_def rows_def cols_def mdiv_def foldl_ns_step_zero11)

theorem orthogonalize_refines_spec_witness:
  "orthogonalize_spec abc_list [[0]] = [[0]]"
  using orthogonalize_refines_spec [of "[[0]]"] by (simp add: orthogonalize_zero11)

subsection \<open>Singular values above 1\<close>

text \<open>
  On a 1 x 1 matrix every matrix product is a product of numbers, the Frobenius norm is the
  absolute value, and the one singular value of the result is the absolute value of its
  entry. The five steps are then five quintic polynomials applied in turn; intervals with
  rational ends bound each of them.
\<close>

lemma ns_step_11: "ns_step [[x]] (a, b, c) = [[a * x + b * x ^ 3 + c * x ^ 5]]"
  by (simp add: ns_step_def matmul_def mT_def smul_def madd_def dot_def
      power3_eq_cube power_def algebra_simps)

lemma quintic_bounds:
  fixes a b c lo hi x :: real
  assumes "0 \<le> lo" "lo \<le> x" "x \<le> hi" "0 \<le> a" "b \<le> 0" "0 \<le> c"
  shows "a * lo + b * hi ^ 3 + c * lo ^ 5 \<le> a * x + b * x ^ 3 + c * x ^ 5 \<and>
         a * x + b * x ^ 3 + c * x ^ 5 \<le> a * hi + b * lo ^ 3 + c * hi ^ 5"
proof -
  have x0: "0 \<le> x" using assms by simp
  have l3: "lo ^ 3 \<le> x ^ 3" using assms by (intro power_mono) simp_all
  have h3: "x ^ 3 \<le> hi ^ 3" using assms x0 by (intro power_mono) simp_all
  have l5: "lo ^ 5 \<le> x ^ 5" using assms by (intro power_mono) simp_all
  have h5: "x ^ 5 \<le> hi ^ 5" using assms x0 by (intro power_mono) simp_all
  have 1: "a * lo \<le> a * x" "a * x \<le> a * hi" using assms by (simp_all add: mult_left_mono)
  have 2: "b * hi ^ 3 \<le> b * x ^ 3" "b * x ^ 3 \<le> b * lo ^ 3"
    using assms l3 h3 by (simp_all add: mult_left_mono_neg)
  have 3: "c * lo ^ 5 \<le> c * x ^ 5" "c * x ^ 5 \<le> c * hi ^ 5"
    using assms l5 h5 by (simp_all add: mult_left_mono)
  show ?thesis using 1 2 3 by linarith
qed

lemma quintic_in:
  fixes a b c lo hi x lo' hi' :: real
  assumes "lo \<le> x \<and> x \<le> hi" "0 \<le> lo" "0 \<le> a" "b \<le> 0" "0 \<le> c"
    and "lo' \<le> a * lo + b * hi ^ 3 + c * lo ^ 5" and "a * hi + b * lo ^ 3 + c * hi ^ 5 \<le> hi'"
  shows "lo' \<le> a * x + b * x ^ 3 + c * x ^ 5 \<and> a * x + b * x ^ 3 + c * x ^ 5 \<le> hi'"
  using quintic_bounds[of lo x hi a b c] assms by linarith

lemma orthogonalize_tiny11:
  "orthogonalize [[1 / 2490000000]] =
     [[foldl (\<lambda>x abc. case abc of (a, b, c) \<Rightarrow> a * x + b * x ^ 3 + c * x ^ 5) (1 / 250) abc_list]]"
proof -
  have f: "foldl ns_step [[x]] tbl =
      [[foldl (\<lambda>x abc. case abc of (a, b, c) \<Rightarrow> a * x + b * x ^ 3 + c * x ^ 5) x tbl]]" for x tbl
    by (induction tbl arbitrary: x) (auto simp: ns_step_11)
  have n: "fnorm [[1 / 2490000000]] = 1 / 2490000000"
    by (simp add: fnorm_def vnorm_def flatten_def)
  have "mdiv [[1 / 2490000000]] (fnorm [[1 / 2490000000]] + 1 / 10 ^ 7) = [[1 / 250]]"
    unfolding n by (simp add: mdiv_def)
  then show ?thesis
    by (simp add: orthogonalize_def rows_def cols_def f Let_def)
qed


text \<open>
  Claim C4 on the code. The docstring of \<open>orthogonalize\<close> promises no singular value above
  1. For the 1 x 1 input \<open>1/2490000000\<close> (about \<open>4.016e-10\<close>) the normalised value is exactly
  \<open>1/250\<close>, and the five steps take it above 1.14: the coefficient table overshoots for small
  normalised singular values.
\<close>

theorem orthogonalize_overshoots:
  "\<exists>y. orthogonalize [[1 / 2490000000]] = [[y]] \<and> 114 / 100 < y"
proof -
  define x1 :: real where "x1 = 4.0848 * (1/250) + (-6.8946) * (1/250) ^ 3 + 2.9270 * (1/250) ^ 5"
  define x2 where "x2 = 3.9505 * x1 + (-6.3029) * x1 ^ 3 + 2.6377 * x1 ^ 5"
  define x3 where "x3 = 3.7418 * x2 + (-5.5913) * x2 ^ 3 + 2.3037 * x2 ^ 5"
  define x4 where "x4 = 2.8769 * x3 + (-3.1427) * x3 ^ 3 + 1.2046 * x3 ^ 5"
  define x5 where "x5 = 2.8366 * x4 + (-3.0525) * x4 ^ 3 + 1.2012 * x4 ^ 5"
  have b1: "163387 / 10000000 \<le> x1 \<and> x1 \<le> 163388 / 10000000"
    unfolding x1_def by (simp add: power_def)
  have b2: "645185 / 10000000 \<le> x2 \<and> x2 \<le> 645190 / 10000000"
    unfolding x2_def by (rule quintic_in[OF b1]) (simp_all add: power_def)
  have b3: "2399162 / 10000000 \<le> x3 \<and> x3 \<le> 2399182 / 10000000"
    unfolding x3_def by (rule quintic_in[OF b2]) (simp_all add: power_def)
  have b4: "6477721 / 10000000 \<le> x4 \<and> x4 \<le> 6477791 / 10000000"
    unfolding x4_def by (rule quintic_in[OF b3]) (simp_all add: power_def)
  have b5: "11447428 / 10000000 \<le> x5 \<and> x5 \<le> 11447970 / 10000000"
    unfolding x5_def by (rule quintic_in[OF b4]) (simp_all add: power_def)
  have "orthogonalize [[1 / 2490000000]] = [[x5]]"
    unfolding orthogonalize_tiny11 abc_list_def x5_def x4_def x3_def x2_def x1_def by simp
  moreover have "114 / 100 < x5" using b5 by simp
  ultimately show ?thesis by blast
qed

subsection \<open>Which inputs make the orthogonalizer fail\<close>

text \<open>
  Claim C9, as the code has it. \<open>orthogonalize\<close> raises nothing on an input of two or more
  dimensions: a matrix, or a batch of matrices, which it orthogonalizes one by one. On an
  input of fewer than two dimensions it fails where it reads \<open>shape[-2]\<close>, with an
  IndexError. Its result is a function of the input and of the coefficient table alone.
\<close>

theorem orthogonalize_t_errors:
  "(ndim t < 2 \<longrightarrow> orthogonalize_t t = Inl IndexError) \<and>
   (2 \<le> ndim t \<longrightarrow> (\<exists>bs ms. t = Batched bs ms \<and>
        orthogonalize_t t = Inr (Batched bs (map orthogonalize ms))))"
  by (cases t) auto

theorem orthogonalize_t_errors_witness:
  "orthogonalize_t (Vector [1, 2]) = Inl IndexError \<and>
   orthogonalize_t (Batched [] [[[0]]]) = Inr (Batched [] [[[0]]])"
  using orthogonalize_t_errors [of "Vector [1, 2]"] orthogonalize_t_errors [of "Batched [] [[[0]]]"]
  by (simp add: orthogonalize_zero11)

text \<open>
  The claim as stated fails on a 3-D input: a batch of two 1 x 1 matrices is not 2-D, and
  \<open>orthogonalize\<close> returns a result for it.
\<close>

theorem orthogonalize_t_batch_no_error:
  "ndim (Batched [2] [[[0]], [[0]]]) \<noteq> 2 \<and>
   orthogonalize_t (Batched [2] [[[0]], [[0]]]) = Inr (Batched [2] [[[0]], [[0]]])"
  by (simp add: orthogonalize_zero11)

subsection \<open>The momentum store\<close>

lemma map2_zeros: "map2 f (map (\<lambda>_. z) xs) xs = map (f z) xs"
  by (induction xs) simp_all

lemma lerp_zeros: "lerp (zeros_like g) g w = map (map (\<lambda>x. w * x)) g"
  unfolding lerp_def zeros_like_def
  by (induction g) (simp_all add: map2_zeros)

lemma lerp_blend: "lerp s e w = map2 (map2 (\<lambda>x y. x * (1 - w) + y * w)) s e"
  unfolding lerp_def by (simp add: algebra_simps)

text \<open>
  Claim C6. With gradient \<open>g\<close> and momentum \<open>m\<close> the store sets
  \<open>buf = buf * m + g * (1 - m)\<close>, entry by entry; with Nesterov lookahead the update handed
  on is \<open>g * (1 - m) + buf * m\<close> over the buffer just written, otherwise it is the buffer;
  a parameter without a buffer starts from zeros, so its first buffer is \<open>g * (1 - m)\<close>.
  The third component is what \<open>p.grad\<close> holds afterwards.
\<close>

theorem momentum_store:
  fixes c :: cfg and g :: mat and st :: "mat option"
  defines "m \<equiv> momentum c"
  defines "buf0 \<equiv> (case st of None \<Rightarrow> zeros_like g | Some b \<Rightarrow> b)"
  defines "buf \<equiv> map2 (map2 (\<lambda>b x. b * m + x * (1 - m))) buf0 g"
  shows "momentum_update c g st =
           (if nesterov c then map2 (map2 (\<lambda>x b. x * (1 - m) + b * m)) g buf else buf,
            buf,
            if nesterov c then map2 (map2 (\<lambda>x b. x * (1 - m) + b * m)) g buf else g)
         \<and> (st = None \<longrightarrow> buf = map (map (\<lambda>x. x * (1 - m))) g)"
proof -
  have b: "lerp buf0 g (1 - m) = buf"
    unfolding buf_def lerp_blend by (simp add: algebra_simps)
  have n: "lerp g buf m = map2 (map2 (\<lambda>x b. x * (1 - m) + b * m)) g buf"
    by (rule lerp_blend)
  have z: "st = None \<longrightarrow> buf = map (map (\<lambda>x. x * (1 - m))) g"
    using b lerp_zeros[of g "1 - m"] by (auto simp: buf0_def mult.commute)
  show ?thesis
    using b n z by (simp add: momentum_update_def Let_def m_def[symmetric] buf0_def[symmetric])
qed

theorem momentum_store_witness:
  "momentum_update \<lparr>lr = 1/50, momentum = 1/2, nesterov = True, w_max = 1, rank = 0,
      world_size = 1\<rparr> [[4]] None = ([[3]], [[2]], [[3]])"
  using momentum_store [of "\<lparr>lr = 1/50, momentum = 1/2, nesterov = True, w_max = 1, rank = 0,
      world_size = 1\<rparr>" "[[4]]" None]
  by (simp add: zeros_like_def)

subsection \<open>Round-robin sharding is complete\<close>

lemma base_in_range_iff:
  assumes "0 < (w::nat)"
  shows "k < (n + w - 1) div w \<longleftrightarrow> k * w < n"
proof -
  have "k < (n + w - 1) div w \<longleftrightarrow> Suc k \<le> (n + w - 1) div w" by auto
  also have "\<dots> \<longleftrightarrow> Suc k * w \<le> n + w - 1"
    using assms by (rule less_eq_div_iff_mult_less_eq)
  also have "\<dots> \<longleftrightarrow> k * w < n" using assms by auto
  finally show ?thesis .
qed

lemma set_shard_bases:
  assumes "0 < w"
  shows "set (map (\<lambda>k. k * w) [0..<(n + w - 1) div w]) = {b. b < n \<and> w dvd b}"
proof -
  have "set (map (\<lambda>k. k * w) [0..<(n + w - 1) div w]) = (\<lambda>k. k * w) ` {k. k < (n + w - 1) div w}"
    by (simp only: set_map set_upt atLeast0LessThan lessThan_def)
  also have "\<dots> = (\<lambda>k. k * w) ` {k. k * w < n}"
    by (simp only: base_in_range_iff[OF assms])
  also have "\<dots> = {b. b < n \<and> w dvd b}"
    by (auto simp: dvd_def mult.commute)
  finally show ?thesis .
qed

text \<open>
  Claim C7. For a group of \<open>n\<close> parameters and a world size \<open>w \<ge> 1\<close>, the loop runs over
  distinct shard steps, and every parameter index \<open>idx < n\<close> is the assigned index of
  exactly one pair of a shard step and a rank below \<open>w\<close>: the step \<open>w * (idx div w)\<close> and
  the rank \<open>idx mod w\<close>.
\<close>

theorem round_robin_complete:
  assumes "0 < w" and "idx < n"
  shows "\<exists>bases. shard_bases n w = Inr bases \<and> distinct bases \<and>
           (\<forall>b r. (b \<in> set bases \<and> r < w \<and> assigned n b r = Some idx)
                  \<longleftrightarrow> (b = w * (idx div w) \<and> r = idx mod w))"
proof -
  let ?bs = "map (\<lambda>k. k * w) [0..<(n + w - 1) div w]"
  have 1: "shard_bases n w = Inr ?bs" using assms by (simp add: shard_bases_def)
  have 2: "distinct ?bs" using assms by (simp add: distinct_map inj_on_def)
  have 3: "(b \<in> set ?bs \<and> r < w \<and> assigned n b r = Some idx)
                  \<longleftrightarrow> (b = w * (idx div w) \<and> r = idx mod w)" for b r
  proof
    assume h: "b \<in> set ?bs \<and> r < w \<and> assigned n b r = Some idx"
    then obtain q where q: "b = w * q" using assms by (auto simp: set_shard_bases dvd_def)
    from h have e: "idx = b + r" by (auto simp: assigned_def split: if_splits)
    from h q e have "idx div w = q" by simp
    moreover from h q e have "idx mod w = r" by simp
    ultimately show "b = w * (idx div w) \<and> r = idx mod w" using q by simp
  next
    assume h: "b = w * (idx div w) \<and> r = idx mod w"
    have "w * (idx div w) \<le> idx" by simp
    then have "w * (idx div w) < n" using assms(2) by (rule le_less_trans)
    then have "b < n \<and> w dvd b" using h by simp
    then have "b \<in> set ?bs" by (simp only: set_shard_bases[OF assms(1)] mem_Collect_eq)
    moreover have "r < w" using assms h by simp
    moreover have "assigned n b r = Some idx" using assms h by (simp add: assigned_def)
    ultimately show "b \<in> set ?bs \<and> r < w \<and> assigned n b r = Some idx" by simp
  qed
  show ?thesis using 1 2 3 by blast
qed

theorem round_robin_complete_witness:
  "\<exists>bases. shard_bases 3 2 = Inr bases \<and> distinct bases \<and>
     (\<forall>b r. (b \<in> set bases \<and> r < 2 \<and> assigned 3 b r = Some 2) \<longleftrightarrow> (b = 2 \<and> r = 0))"
  using round_robin_complete [of 2 2 3] by simp

subsection \<open>The estimate of a scaled matrix\<close>

lemma mT_mdiv: "mT (mdiv M d) = mdiv (mT M) d"
  unfolding mT_def mdiv_def by (rule transpose_map_map)

lemma sumsq_nonneg: "0 \<le> sum_list (map (\<lambda>x. x\<^sup>2) (u::real list))"
  by (induction u) simp_all

lemma vnorm_nonneg: "0 \<le> vnorm u"
  by (simp add: vnorm_def sumsq_nonneg)

lemma dot_div_right: "dot u (map (\<lambda>x. x / d) v) = dot u v / d"
  unfolding dot_def
proof (induction u arbitrary: v)
  case Nil
  show ?case by simp
next
  case (Cons a u)
  show ?case
  proof (cases v)
    case Nil
    then show ?thesis by simp
  next
    case (Cons b v')
    then show ?thesis using Cons.IH[of v'] by (simp add: add_divide_distrib)
  qed
qed

lemma vecmat_scale: "vecmat (map ((*) a) u) M = map ((*) a) (vecmat u M)"
  unfolding vecmat_def by (simp add: dot_scale_left)

lemma vecmat_mdiv: "vecmat u (mdiv M d) = vdiv (vecmat u M) d"
  unfolding vecmat_def mdiv_def vdiv_def transpose_map_map
  by (simp add: dot_div_right)

lemma vnorm_scale: "vnorm (map ((*) a) u) = \<bar>a\<bar> * vnorm u"
proof -
  have "sum_list (map (\<lambda>x. x\<^sup>2) (map ((*) a) u)) = a\<^sup>2 * sum_list (map (\<lambda>x. x\<^sup>2) u)"
    by (induction u) (simp_all add: power_mult_distrib distrib_left)
  then show ?thesis
    by (simp add: vnorm_def real_sqrt_mult)
qed

lemma vdiv_as_scale: "vdiv u d = map ((*) (1 / d)) u"
  by (simp add: vdiv_def)

lemma map_scale_scale: "map ((*) (a::real)) (map ((*) b) u) = map ((*) (a * b)) u"
  by (simp add: mult.assoc)

lemma pi_step_scaled:
  assumes "0 \<le> a" "a \<le> 1" "1 \<le> d"
  shows "\<exists>a'. 0 \<le> a' \<and> a' \<le> 1 \<and> pi_step (mdiv M d) (map ((*) a) u) = map ((*) a') (pi_step M u)"
proof -
  define w where "w = vecmat (vecmat u M) (mT M)"
  define b where "b = a / (d * d)"
  define n where "n = vnorm w"
  define e :: real where "e = 1 / 10 ^ 8"
  have e: "0 < e" by (simp add: e_def)
  have n: "0 \<le> n" by (simp add: n_def vnorm_nonneg)
  have "1 * 1 \<le> d * d" using assms(3) by (intro mult_mono) simp_all
  then have dd: "1 \<le> d * d" by simp
  have b0: "0 \<le> b" using assms by (simp add: b_def)
  have b1: "b \<le> 1" using assms dd by (simp add: b_def field_simps)
  have "vecmat (vecmat (map ((*) a) u) (mdiv M d)) (mT (mdiv M d))
        = map ((*) (1 / d)) (map ((*) (1 / d)) (map ((*) a) w))"
    unfolding vecmat_scale vecmat_mdiv mT_mdiv vdiv_as_scale w_def ..
  also have "\<dots> = map ((*) b) w"
    unfolding map_scale_scale b_def by simp
  finally have w': "vecmat (vecmat (map ((*) a) u) (mdiv M d)) (mT (mdiv M d)) = map ((*) b) w" .
  have nb: "vnorm (map ((*) b) w) = b * n" using b0 by (simp add: vnorm_scale n_def)
  have l: "pi_step (mdiv M d) (map ((*) a) u) = map ((*) (1 / (b * n + e) * b)) w"
    unfolding pi_step_def Let_def w' nb vdiv_as_scale map_scale_scale e_def ..
  have r: "pi_step M u = map ((*) (1 / (n + e))) w"
    unfolding pi_step_def Let_def vdiv_as_scale n_def e_def w_def ..
  define a' where "a' = b * (n + e) / (b * n + e)"
  have pos1: "0 < b * n + e" using b0 n e by (intro add_nonneg_pos mult_nonneg_nonneg)
  have pos2: "0 < n + e" using n e by (intro add_nonneg_pos)
  have "b * e \<le> 1 * e" using b1 e by (intro mult_right_mono) auto
  then have "b * (n + e) \<le> b * n + e" by (simp add: distrib_left)
  then have a'1: "a' \<le> 1" using pos1 by (simp add: a'_def)
  have a'0: "0 \<le> a'" using b0 n e pos1 by (simp add: a'_def)
  have k: "1 / (b * n + e) * b = a' * (1 / (n + e))"
    using pos1 pos2 by (simp add: a'_def)
  have "pi_step (mdiv M d) (map ((*) a) u) = map ((*) a') (pi_step M u)"
    unfolding l r map_scale_scale k ..
  then show ?thesis using a'0 a'1 by blast
qed

lemma pi_iter_scaled:
  assumes "1 \<le> d"
  shows "\<exists>a. 0 \<le> a \<and> a \<le> 1 \<and>
           ((pi_step (mdiv M d)) ^^ k) u = map ((*) a) (((pi_step M) ^^ k) u)"
proof (induction k)
  case 0
  have "map ((*) (1::real)) u = u" by (induction u) simp_all
  then have "(pi_step (mdiv M d) ^^ 0) u = map ((*) 1) ((pi_step M ^^ 0) u)" by simp
  moreover have "(0::real) \<le> 1 \<and> (1::real) \<le> 1" by simp
  ultimately show ?case by blast
next
  case (Suc k)
  then obtain a where a: "0 \<le> a" "a \<le> 1"
      "((pi_step (mdiv M d)) ^^ k) u = map ((*) a) (((pi_step M) ^^ k) u)" by blast
  obtain a' where a': "0 \<le> a'" "a' \<le> 1"
      "pi_step (mdiv M d) (map ((*) a) ((pi_step M ^^ k) u)) = map ((*) a') (pi_step M ((pi_step M ^^ k) u))"
    using pi_step_scaled[OF a(1,2) assms] by blast
  have "(pi_step (mdiv M d) ^^ Suc k) u = map ((*) a') ((pi_step M ^^ Suc k) u)"
    using a(3) a'(3) by simp
  then show ?case using a'(1,2) by blast
qed

lemma power_iteration_from_nonneg: "0 \<le> power_iteration_from M u"
  by (simp add: power_iteration_from_def Let_def vnorm_nonneg)

lemma power_iteration_from_mdiv:
  assumes "1 \<le> d"
  shows "power_iteration_from (mdiv M d) u \<le> power_iteration_from M u / d"
proof -
  obtain a where a: "0 \<le> a" "a \<le> 1"
      "((pi_step (mdiv M d)) ^^ 26) u = map ((*) a) (((pi_step M) ^^ 26) u)"
    using pi_iter_scaled[OF assms] by blast
  define s where "s = vnorm (vecmat ((pi_step M ^^ 26) u) M)"
  have s: "0 \<le> s" unfolding s_def by (rule vnorm_nonneg)
  have d: "0 < d" using assms by simp
  have "vecmat ((pi_step (mdiv M d) ^^ 26) u) (mdiv M d)
        = map ((*) (1 / d * a)) (vecmat ((pi_step M ^^ 26) u) M)"
    unfolding a(3) vecmat_mdiv vecmat_scale vdiv_as_scale map_scale_scale ..
  then have "power_iteration_from (mdiv M d) u = \<bar>1 / d * a\<bar> * s"
    unfolding power_iteration_from_def Let_def s_def by (simp only: vnorm_scale)
  also have "\<dots> = a * s / d" using a(1) d by (simp add: abs_mult)
  also have "\<dots> \<le> 1 * s / d"
    using a(2) s d by (intro divide_right_mono mult_right_mono) simp_all
  finally show ?thesis by (simp add: power_iteration_from_def Let_def s_def)
qed

lemma map2_map_right: "map2 f xs (map h ys) = map2 (\<lambda>x y. f x (h y)) xs ys"
  by (induction xs arbitrary: ys) (case_tac ys; simp)+

lemma madd_smul: "madd p (smul k G) = map2 (map2 (\<lambda>x y. x + k * y)) p G"
  unfolding madd_def smul_def map2_map_right ..

lemma scale_of_pos:
  assumes "0 < cols p"
  shows "0 < scale_of p"
proof -
  have "p \<noteq> []" using assms by (auto simp: cols_def)
  then have "0 < rows p" by (simp add: rows_def)
  then show ?thesis using assms by (simp add: scale_of_def)
qed

lemma scaled_estimate_le_cap:
  fixes sigma cap :: real
  assumes "0 \<le> sigma" "0 < cap"
  defines "d \<equiv> max 1 (sigma / cap) + 1 / 10 ^ 12"
  shows "1 < d \<and> sigma / d \<le> cap"
proof -
  have d1: "1 < d" unfolding d_def by (simp add: add_pos_nonneg less_max_iff_disj add_strict_increasing2)
  have "sigma / cap < d" unfolding d_def by (simp add: add_strict_increasing2 less_max_iff_disj)
  then have "sigma < d * cap" using assms(2) by (simp add: pos_divide_less_eq)
  then have "sigma / d < cap" using d1 by (simp add: pos_divide_less_eq mult.commute)
  then show ?thesis using d1 by simp
qed


text \<open>
  One pair of the loop of \<open>update_prev\<close>, with the start vector \<open>u\<close> of the estimator: the
  divisor is above 1 and the estimate of the rescaled parameter from the same \<open>u\<close> is at
  most the cap.
\<close>

lemma apply_update_capped:
  fixes c :: cfg and p :: mat and g u :: vec
  defines "scale \<equiv> scale_of p"
  defines "p1 \<equiv> map2 (map2 (\<lambda>x y. x - lr c * scale * y)) p (unflatten (rows p) (cols p) g)"
  defines "d \<equiv> max 1 (power_iteration_from p1 u / (w_max c * scale)) + 1 / 10 ^ 12"
  assumes wm: "0 < w_max c" and cp: "0 < cols p" and lg: "length g = rows p * cols p"
  shows "apply_update c p g u = Inr (map (map (\<lambda>x. x / d)) p1) \<and> 1 < d \<and>
         power_iteration_from (map (map (\<lambda>x. x / d)) p1) u \<le> w_max c * scale"
proof -
  have sc: "0 < scale" unfolding scale_def using cp by (rule scale_of_pos)
  have cap: "0 < w_max c * scale" using wm sc by simp
  have va: "view_as g p = Inr (unflatten (rows p) (cols p) g)"
    using lg by (simp add: view_as_def)
  have p1: "madd p (smul (- (lr c * scale_of p)) (unflatten (rows p) (cols p) g)) = p1"
    unfolding madd_smul p1_def scale_def by simp
  have "apply_update c p g u = Inr (rescale c (scale_of p) (power_iteration_from p1 u) p1)"
    using cp va by (simp add: apply_update_def Let_def p1)
  then have 1: "apply_update c p g u = Inr (map (map (\<lambda>x. x / d)) p1)"
    by (simp add: rescale_def Let_def mdiv_def d_def scale_def)
  have sd: "1 < d \<and> power_iteration_from p1 u / d \<le> w_max c * scale"
    unfolding d_def using power_iteration_from_nonneg cap by (rule scaled_estimate_le_cap)
  then have "1 \<le> d" by simp
  then have "power_iteration_from (mdiv p1 d) u \<le> power_iteration_from p1 u / d"
    by (rule power_iteration_from_mdiv)
  then have 3: "power_iteration_from (map (map (\<lambda>x. x / d)) p1) u \<le> w_max c * scale"
    using sd by (simp add: mdiv_def)
  show ?thesis using 1 sd 3 by simp
qed

lemma vecmat_zero11: "vecmat u [[0]] = [0]"
  by (cases u) (simp_all add: vecmat_def dot_def)

lemma pi_step_zero11: "pi_step [[0]] u = [0]"
  by (simp add: pi_step_def mT_def vecmat_zero11 vdiv_def)

lemma pi_iter_zero11: "(pi_step [[0]] ^^ Suc k) u = [0]"
  by (simp add: pi_step_zero11)

lemma power_iteration_from_zero11: "power_iteration_from [[0]] u = 0"
proof -
  have "(pi_step [[0]] ^^ 26) u = (pi_step [[0]] ^^ Suc 25) u" by simp
  then have "(pi_step [[0]] ^^ 26) u = [0]" by (simp only: pi_iter_zero11)
  then show ?thesis by (simp add: power_iteration_from_def vecmat_zero11 vnorm_def)
qed

subsection \<open>A non-finite estimate is not clamped\<close>

text \<open>On finite values and a non-zero cap the extended lines compute what \<open>rescale\<close> does.\<close>

lemma rescale_fl_finite:
  assumes "w_max c * scale \<noteq> 0"
  shows "rescale_fl c scale (Fin s) (map (map Fin) p) = map (map Fin) (rescale c scale s p)"
proof -
  have "max 1 (s / (w_max c * scale)) + 1 / 10 ^ 12 > 0"
    by (simp add: add_pos_pos less_max_iff_disj add_strict_increasing2)
  then have "max 1 (s / (w_max c * scale)) + 1 / 10 ^ 12 \<noteq> 0" by simp
  then show ?thesis using assms
    by (simp add: rescale_fl_def scale_down_fl_def rescale_def mdiv_def Let_def comp_def)
qed


text \<open>
  Claim C5, as the code has it. The guard \<open>if torch.isnan(scale_down): scale_down = 1\<close> is
  commented out. When the estimate is NaN the scale-down factor is NaN and every entry of
  the parameter becomes NaN; when the estimate is plus infinity (over a positive cap) the
  factor is plus infinity and every finite entry becomes 0. Nothing is raised, and the
  state keeps no count of such events.
\<close>

theorem nan_estimate_propagates:
  "scale_down_fl c scale NaN = NaN \<and>
   rescale_fl c scale NaN p = map (map (\<lambda>_. NaN)) p \<and>
   (0 < w_max c * scale \<longrightarrow>
      scale_down_fl c scale PInf = PInf \<and>
      rescale_fl c scale PInf (map (map Fin) q) = map (map (\<lambda>_. Fin 0)) q)"
proof -
  have d: "fl_div x NaN = NaN" for x by (cases x) simp_all
  have 1: "scale_down_fl c scale NaN = NaN" by (simp add: scale_down_fl_def)
  have 2: "rescale_fl c scale NaN p = map (map (\<lambda>_. NaN)) p"
    by (simp add: rescale_fl_def 1 d)
  have 3: "scale_down_fl c scale PInf = PInf" if "0 < w_max c * scale"
    using that by (simp add: scale_down_fl_def)
  have 4: "rescale_fl c scale PInf (map (map Fin) q) = map (map (\<lambda>_. Fin 0)) q"
    if "0 < w_max c * scale"
    by (simp add: rescale_fl_def 3[OF that] comp_def)
  show ?thesis using 1 2 3 4 by blast
qed


theorem nan_estimate_propagates_witness:
  "scale_down_fl scenario_cfg 1 PInf = PInf \<and>
   rescale_fl scenario_cfg 1 PInf [[Fin 2]] = [[Fin 0]] \<and>
   rescale_fl scenario_cfg 1 NaN [[Fin 2]] = [[NaN]]"
  using nan_estimate_propagates [of scenario_cfg 1 "[[Fin 2]]" "[[2]]"]
  by (simp add: scenario_cfg_def)

text \<open>
  The claim as stated fails: with a NaN estimate the factor is not 1, and the parameter
  \<open>[[2]]\<close> becomes \<open>[[NaN]]\<close>.
\<close>

theorem nan_estimate_not_clamped:
  "scale_down_fl scenario_cfg 1 NaN \<noteq> Fin 1 \<and>
   rescale_fl scenario_cfg 1 NaN [[Fin 2]] = [[NaN]]"
  by (simp add: scale_down_fl_def rescale_fl_def scenario_cfg_def)

subsection \<open>What each phase changes\<close>

lemma map_update_same: "(map f xs)[i := f (xs ! i)] = map f xs"
  by (cases "i < length xs") (simp_all add: list_update_same_conv list_update_beyond)

lemma apply_param_frame:
  assumes "apply_param c rnd i g st = Inr st'"
  shows "trace st' = trace st" "handle st' = handle st" "params_world st' = params_world st"
    "update_buffer st' = update_buffer st" "length (params st') = length (params st)"
    "map momentum_buffer (params st') = map momentum_buffer (params st)"
    "map grad (params st') = map grad (params st)"
    "\<And>j. j \<noteq> i \<Longrightarrow> params st' ! j = params st ! j"
  using assms
  by (auto simp: apply_param_def Let_def randn_def map_update map_update_same
      split: sum.splits prod.splits)

lemma apply_all_frame:
  assumes "apply_all c rnd zs st = Inr st'"
  shows "trace st' = trace st \<and> handle st' = handle st \<and> params_world st' = params_world st \<and>
    update_buffer st' = update_buffer st \<and> length (params st') = length (params st) \<and>
    map momentum_buffer (params st') = map momentum_buffer (params st) \<and>
    map grad (params st') = map grad (params st) \<and>
    (\<forall>j. j \<notin> fst ` set zs \<longrightarrow> params st' ! j = params st ! j)"
  using assms
proof (induction zs arbitrary: st)
  case Nil
  then show ?case by simp
next
  case (Cons z zs)
  obtain i g where z: "z = (i, g)" by (cases z)
  from Cons.prems z obtain st1 where 1: "apply_param c rnd i g st = Inr st1"
    and 2: "apply_all c rnd zs st1 = Inr st'"
    by (auto split: sum.splits)
  from Cons.IH[OF 2] apply_param_frame[OF 1] z show ?case by auto
qed

lemma update_prev_frame:
  assumes "update_prev c rnd st = Inr st'"
  shows "trace st' = trace st @ [Apply (handle_base st)] \<and>
         handle st' = Some (Done (handle_base st)) \<and> handle st \<noteq> None \<and>
         params_world st' = params_world st \<and>
         length (params st') = length (params st) \<and>
         map momentum_buffer (params st') = map momentum_buffer (params st) \<and>
         map grad (params st') = map grad (params st) \<and>
         (\<forall>j. j \<notin> set (params_world st) \<longrightarrow> params st' ! j = params st ! j)"
proof -
  from assms obtain st1 where w: "wait st = Inr st1"
    and a: "apply_all c rnd (zip (params_world st1) (update_buffer st1))
              (st1\<lparr>trace := trace st1 @ [Apply (handle_base st1)]\<rparr>) = Inr st'"
    by (auto simp: update_prev_def split: sum.splits)
  from w have s1: "trace st1 = trace st" "handle st1 = Some (Done (handle_base st))"
    "handle st \<noteq> None" "params_world st1 = params_world st" "params st1 = params st"
    "handle_base st1 = handle_base st"
    by (auto simp: wait_def handle_base_def split: option.splits work.splits)
  have "fst ` set (zip (params_world st1) (update_buffer st1)) \<subseteq> set (params_world st)"
    using s1(4) by (auto dest: set_zip_leftD)
  then have "j \<notin> set (params_world st) \<Longrightarrow>
      j \<notin> fst ` set (zip (params_world st1) (update_buffer st1))" for j
    by blast
  with apply_all_frame[OF a] have "\<forall>j. j \<notin> set (params_world st) \<longrightarrow> params st' ! j = params st ! j"
    using s1(5) by simp
  with apply_all_frame[OF a] s1 show ?thesis by simp
qed

lemma iterate_frame:
  assumes "iterate c b st = Inr (g, st1)"
  shows "trace st1 = trace st @ [Iterate b] \<and> handle st1 = handle st \<and>
         params_world st1 = params_world st \<and> update_buffer st1 = update_buffer st \<and>
         length (params st1) = length (params st)"
  using assms
  by (auto simp: iterate_def Let_def split: option.splits prod.splits if_splits)

lemma gather_frame:
  assumes "gather c peers b g st = Inr st'"
  shows "trace st' = trace st @ [Gather b] \<and>
         (\<exists>v. resolve st g = Inr v \<and> handle st' = Some (Pending b (all_gather c peers b v))) \<and>
         params st' = params st \<and> update_buffer st' = update_buffer st \<and>
         params_world st' = [b..<min (b + world_size c) (length (params st))]"
  using assms
  by (auto simp: gather_def split: sum.splits)

lemma shard_step_frame:
  assumes "shard_step c rnd peers b st = Inr st'"
  shows "trace st' = trace st @ Iterate b # (if b > 0 then [Apply (handle_base st)] else []) @ [Gather b]
         \<and> (\<exists>rs. handle st' = Some (Pending b rs)) \<and> length (params st') = length (params st)"
proof -
  from assms obtain g st1 st2 where i: "iterate c b st = Inr (g, st1)"
    and u: "(if b > 0 then update_prev c rnd st1 else Inr st1) = Inr st2"
    and g: "gather c peers b g st2 = Inr st'"
    by (auto simp: shard_step_def split: sum.splits prod.splits)
  note fi = iterate_frame[OF i]
  note fg = gather_frame[OF g]
  show ?thesis
  proof (cases "b > 0")
    case True
    with u have "update_prev c rnd st1 = Inr st2" by simp
    note fu = update_prev_frame[OF this]
    have "handle_base st1 = handle_base st" using fi by (simp add: handle_base_def)
    with fi fu fg True show ?thesis by auto
  next
    case False
    with u have "st2 = st1" by simp
    with fi fg False show ?thesis by auto
  qed
qed

lemma handle_base_Pending: "handle st = Some (Pending b rs) \<Longrightarrow> handle_base st = b"
  by (simp add: handle_base_def)

lemma step_loop_frame:
  assumes "step_loop c rnd peers bs st = Inr st'"
  shows "trace st' = trace st @ loop_events (handle_base st) bs \<and>
         (bs \<noteq> [] \<longrightarrow> (\<exists>rs. handle st' = Some (Pending (last bs) rs))) \<and>
         (bs = [] \<longrightarrow> st' = st) \<and>
         length (params st') = length (params st)"
  using assms
proof (induction bs arbitrary: st)
  case Nil
  then show ?case by simp
next
  case (Cons b bs)
  from Cons.prems obtain st1 where 1: "shard_step c rnd peers b st = Inr st1"
    and 2: "step_loop c rnd peers bs st1 = Inr st'"
    by (auto split: sum.splits)
  note f1 = shard_step_frame[OF 1]
  note f2 = Cons.IH[OF 2]
  from f1 obtain rs where rs: "handle st1 = Some (Pending b rs)" by blast
  then have hb: "handle_base st1 = b" by (rule handle_base_Pending)
  show ?case
  proof (cases "bs = []")
    case True
    with f1 f2 hb rs show ?thesis by auto
  next
    case False
    with f1 f2 hb show ?thesis by auto
  qed
qed

lemma loop_events_gathers:
  "filter is_gather (loop_events h bs) = map Gather bs"
  by (induction bs arbitrary: h) simp_all

lemma loop_events_applies:
  assumes "\<forall>b \<in> set bs. 0 < b"
  shows "filter is_apply (loop_events h bs) = map Apply (butlast (h # bs))"
  using assms by (induction bs arbitrary: h) simp_all

lemma loop_events_adjacent:
  assumes "\<forall>b \<in> set bs. 0 < b" and "i < length bs"
  shows "\<exists>xs ys. loop_events h bs = xs @ [Apply ((h # bs) ! i), Gather (bs ! i)] @ ys"
  using assms
proof (induction bs arbitrary: h i)
  case Nil
  then show ?case by simp
next
  case (Cons b bs)
  show ?case
  proof (cases i)
    case 0
    have "loop_events h (b # bs) = [Iterate b] @ [Apply ((h # b # bs) ! 0), Gather ((b # bs) ! 0)] @ loop_events b bs"
      using Cons.prems by simp
    then show ?thesis using 0 by blast
  next
    case (Suc j)
    then have "j < length bs" using Cons.prems by simp
    moreover have "\<forall>b \<in> set bs. 0 < b" using Cons.prems by simp
    ultimately obtain xs ys where "loop_events b bs = xs @ [Apply ((b # bs) ! j), Gather (bs ! j)] @ ys"
      using Cons.IH by blast
    then have "loop_events h (b # bs) = (Iterate b # Apply h # Gather b # xs) @
        [Apply ((h # b # bs) ! i), Gather ((b # bs) ! i)] @ ys"
      using Cons.prems Suc by simp
    then show ?thesis by blast
  qed
qed

lemma shard_bases_shape:
  assumes "shard_bases n w = Inr bases" and "0 < n"
  shows "0 < w \<and> distinct bases \<and> (\<exists>rest. bases = 0 # rest \<and> (\<forall>b \<in> set rest. 0 < b))"
proof -
  from assms have w: "0 < w" and b: "bases = map (\<lambda>k. k * w) [0..<(n + w - 1) div w]"
    by (auto simp: shard_bases_def split: if_splits)
  have "0 < (n + w - 1) div w" using base_in_range_iff[OF w, of 0 n] assms(2) by simp
  then have "[0..<(n + w - 1) div w] = 0 # [1..<(n + w - 1) div w]"
    by (simp add: upt_conv_Cons)
  then have "bases = 0 # map (\<lambda>k. k * w) [1..<(n + w - 1) div w]" using b by simp
  moreover have "\<forall>b \<in> set (map (\<lambda>k. k * w) [1..<(n + w - 1) div w]). 0 < b" using w by auto
  moreover have "distinct bases" using w b by (simp add: distinct_map inj_on_def)
  ultimately show ?thesis using w by blast
qed


lemma step_group_trace:
  assumes "step_group c rnd peers st = Inr st'"
  shows "\<exists>bases tr. shard_bases (length (params st)) (world_size c) = Inr bases \<and>
           bases \<noteq> [] \<and> distinct bases \<and> hd bases = 0 \<and>
           trace st' = trace st @ tr \<and>
           (\<forall>i. 0 < i \<and> i < length bases \<longrightarrow>
              (\<exists>xs ys. tr = xs @ [Apply (bases ! (i - 1)), Gather (bases ! i)] @ ys)) \<and>
           (\<exists>ys. tr = [Iterate 0, Gather 0] @ ys) \<and>
           filter is_gather tr = map Gather bases \<and>
           filter is_apply tr = map Apply bases \<and>
           last tr = Apply (last bases) \<and>
           handle st' = Some (Done (last bases))"
proof -
  define st0 where "st0 = st\<lparr>handle := None, params_world := []\<rparr>"
  from assms obtain bases st1 where
    sb: "shard_bases (length (params st)) (world_size c) = Inr bases"
    and lp: "step_loop c rnd peers bases st0 = Inr st1"
    and up: "update_prev c rnd st1 = Inr st'"
    by (auto simp: step_group_def st0_def Let_def split: sum.splits)
  note fl = step_loop_frame[OF lp]
  note fu = update_prev_frame[OF up]
  have ne: "bases \<noteq> []"
  proof
    assume "bases = []"
    then have "st1 = st0" using fl by simp
    then have "handle st1 = None" by (simp add: st0_def)
    then show False using fu by simp
  qed
  have n: "0 < length (params st)"
  proof (rule ccontr)
    assume "\<not> 0 < length (params st)"
    then have "bases = []" using sb by (auto simp: shard_bases_def split: if_splits)
    then show False using ne by simp
  qed
  from shard_bases_shape[OF sb n] obtain rest where
    d: "distinct bases" and br: "bases = 0 # rest" and pos: "\<forall>b \<in> set rest. 0 < b"
    by blast
  define tr where "tr = loop_events 0 bases @ [Apply (last bases)]"
  have hb0: "handle_base st0 = 0" by (simp add: handle_base_def st0_def)
  obtain rs where rs: "handle st1 = Some (Pending (last bases) rs)" using fl ne by blast
  then have hb1: "handle_base st1 = last bases" by (rule handle_base_Pending)
  have t: "trace st' = trace st @ tr"
    using fl fu hb0 hb1 by (simp add: tr_def st0_def)
  have tr0: "tr = [Iterate 0, Gather 0] @ (loop_events 0 rest @ [Apply (last bases)])"
    by (simp add: tr_def br)
  have adj: "\<exists>xs ys. tr = xs @ [Apply (bases ! (i - 1)), Gather (bases ! i)] @ ys"
    if "0 < i \<and> i < length bases" for i
  proof -
    from that obtain j where j: "i = Suc j" "j < length rest"
      using br by (cases i) auto
    from loop_events_adjacent[OF pos j(2), of 0] obtain xs ys where
      "loop_events 0 rest = xs @ [Apply ((0 # rest) ! j), Gather (rest ! j)] @ ys" by blast
    then have "tr = ([Iterate 0, Gather 0] @ xs) @ [Apply (bases ! (i - 1)), Gather (bases ! i)]
        @ (ys @ [Apply (last bases)])"
      using tr0 j br by simp
    then show ?thesis by blast
  qed
  have ga: "filter is_gather tr = map Gather bases"
    by (simp add: tr_def loop_events_gathers)
  have "filter is_apply tr = map Apply (butlast bases @ [last bases])"
    using loop_events_applies[OF pos, of 0] by (simp add: tr0 br)
  then have ap: "filter is_apply tr = map Apply bases"
    using ne by simp
  have la: "last tr = Apply (last bases)" by (simp add: tr_def)
  have hd: "hd bases = 0" using br by simp
  have dn: "handle st' = Some (Done (last bases))" using fu hb1 by simp
  show ?thesis
    using sb ne d hd t adj tr0 ga ap la dn by blast
qed

subsection \<open>Shapes\<close>

lemma foldr_max_rect:
  assumes "\<forall>row \<in> set X. length row = k" "X \<noteq> []"
  shows "foldr (\<lambda>xs. max (length xs)) X 0 = k"
  using assms
proof (induction X)
  case Nil
  then show ?case by simp
next
  case (Cons x X)
  then show ?case by (cases "X = []") simp_all
qed

lemma rect_transpose:
  assumes "rect r k X" "0 < r"
  shows "rect k r (transpose X)"
proof -
  from assms have ne: "X \<noteq> []" and len: "\<forall>row \<in> set X. length row = k" and r: "length X = r"
    by (auto simp: rect_def)
  have l: "length (transpose X) = k"
    unfolding length_transpose using len ne by (rule foldr_max_rect)
  have "length row = r" if "row \<in> set (transpose X)" for row
  proof -
    from that obtain i where i: "i < length (transpose X)" "row = transpose X ! i"
      by (auto simp: in_set_conv_nth)
    have "filter (\<lambda>ys. i < length ys) X = X"
      using i(1) l len by (auto simp: filter_id_conv)
    then show ?thesis using nth_transpose[OF i(1)] i(2) r by simp
  qed
  then show ?thesis using l by (simp add: rect_def)
qed

lemma rect_matmul:
  assumes "rect r k A" "rect k' m B" "0 < k'"
  shows "rect r m (matmul A B)"
proof -
  have "rect m k' (transpose B)" using assms(2,3) by (rule rect_transpose)
  then have "length (transpose B) = m" by (simp add: rect_def)
  then show ?thesis using assms(1) by (auto simp: rect_def matmul_def)
qed

lemma rect_smul: "rect r k X \<Longrightarrow> rect r k (smul a X)"
  by (auto simp: rect_def smul_def)

lemma rect_mdiv: "rect r k X \<Longrightarrow> rect r k (mdiv X d)"
  by (auto simp: rect_def mdiv_def)

lemma rect_map2:
  assumes "rect r k A" "rect r k B"
  shows "rect r k (map2 (map2 f) A B)"
proof -
  have "length (map2 f a b) = k" if "(a, b) \<in> set (zip A B)" for a b
  proof -
    have "a \<in> set A" "b \<in> set B" using that by (auto dest: set_zip_leftD set_zip_rightD)
    then show ?thesis using assms by (simp add: rect_def)
  qed
  then show ?thesis using assms by (auto simp: rect_def)
qed

lemma rect_madd: "rect r k A \<Longrightarrow> rect r k B \<Longrightarrow> rect r k (madd A B)"
  unfolding madd_def by (rule rect_map2)

lemma rect_lerp: "rect r k A \<Longrightarrow> rect r k B \<Longrightarrow> rect r k (lerp A B w)"
  unfolding lerp_def by (rule rect_map2)

lemma rect_zeros_like: "rect r k g \<Longrightarrow> rect r k (zeros_like g)"
  by (auto simp: rect_def zeros_like_def)

lemma rect_ns_step:
  assumes "rect r k X" "0 < r" "0 < k"
  shows "rect r k (ns_step X abc)"
proof -
  obtain a b c where abc: "abc = (a, b, c)" by (cases abc)
  define A where "A = matmul X (mT X)"
  have t: "rect k r (mT X)" unfolding mT_def using assms(1,2) by (rule rect_transpose)
  have A: "rect r r A" unfolding A_def using assms(1) t assms(3) by (rule rect_matmul)
  have "rect r r (matmul (smul c A) A)" using rect_smul[OF A] A assms(2) by (rule rect_matmul)
  then have B: "rect r r (madd (smul b A) (matmul (smul c A) A))"
    using rect_smul[OF A] by (intro rect_madd)
  have "rect r k (matmul (madd (smul b A) (matmul (smul c A) A)) X)"
    using B assms(1,2) by (rule rect_matmul)
  then have "rect r k (madd (smul a X) (matmul (madd (smul b A) (matmul (smul c A) A)) X))"
    using rect_smul[OF assms(1)] by (intro rect_madd)
  then show ?thesis by (simp add: ns_step_def abc A_def Let_def)
qed

lemma rect_foldl_ns_step:
  assumes "rect r k X" "0 < r" "0 < k"
  shows "rect r k (foldl ns_step X tbl)"
  using assms(1) by (induction tbl arbitrary: X) (simp_all add: rect_ns_step assms(2,3))

lemma rect_rows_cols:
  assumes "rect r k X" "0 < r"
  shows "rows X = r" "cols X = k"
  using assms by (cases X; auto simp: rect_def rows_def cols_def)+

lemma rect_orthogonalize:
  assumes "rect r k M" "0 < r" "0 < k"
  shows "rect r k (orthogonalize M)"
proof (cases "r > k")
  case True
  have t: "rect k r (mT M)" unfolding mT_def using assms(1,2) by (rule rect_transpose)
  have "rect k r (foldl ns_step (mdiv (mT M) (fnorm (mT M) + 1 / 10 ^ 7)) abc_list)"
    using rect_mdiv[OF t] assms(3,2) by (rule rect_foldl_ns_step)
  then have "rect r k (mT (foldl ns_step (mdiv (mT M) (fnorm (mT M) + 1 / 10 ^ 7)) abc_list))"
    unfolding mT_def using assms(3) by (rule rect_transpose)
  then show ?thesis
    using True rect_rows_cols[OF assms(1,2)] by (simp add: orthogonalize_def Let_def)
next
  case False
  have "rect r k (foldl ns_step (mdiv M (fnorm M + 1 / 10 ^ 7)) abc_list)"
    using rect_mdiv[OF assms(1)] assms(2,3) by (rule rect_foldl_ns_step)
  then show ?thesis
    using False rect_rows_cols[OF assms(1,2)] by (simp add: orthogonalize_def Let_def)
qed

lemma length_flatten_rect: "rect r k X \<Longrightarrow> length (flatten X) = r * k"
proof -
  assume a: "rect r k X"
  then have "map length X = replicate r k"
    by (auto simp: rect_def map_replicate_const[symmetric] intro!: map_cong)
  then show ?thesis by (simp add: flatten_def length_concat sum_list_replicate)
qed

lemma rect_unflatten: "length g = r * k \<Longrightarrow> rect r k (unflatten r k g)"
  by (induction r k g rule: unflatten.induct) (auto simp: rect_def)

subsection \<open>The step of a well-formed group returns\<close>

lemma param_ok_rows: "param_ok sz p \<Longrightarrow> 0 < rows (data p)"
  by (cases "data p") (auto simp: param_ok_def cols_def rows_def)

lemma apply_update_ok:
  assumes "rect (rows p) (cols p) p" "0 < rows p" "0 < cols p" "length g = rows p * cols p"
  shows "\<exists>p'. apply_update c p g u = Inr p' \<and> rect (rows p) (cols p) p'"
proof -
  let ?G = "unflatten (rows p) (cols p) g"
  have va: "view_as g p = Inr ?G" using assms(4) by (simp add: view_as_def)
  have G: "rect (rows p) (cols p) ?G" using assms(4) by (rule rect_unflatten)
  have "rect (rows p) (cols p) (rescale c s sg (madd p (smul a ?G)))" for s sg a
    unfolding rescale_def Let_def
    by (intro rect_mdiv rect_madd rect_smul assms(1) G)
  then show ?thesis using assms(3) va by (simp add: apply_update_def Let_def)
qed

lemma param_ok_data:
  assumes "param_ok sz p" "rect (rows (data p)) (cols (data p)) d"
  shows "param_ok sz (p\<lparr>data := d\<rparr>)"
proof -
  have r: "0 < rows (data p)" using assms(1) by (rule param_ok_rows)
  have "rows d = rows (data p)" "cols d = cols (data p)"
    using rect_rows_cols[OF assms(2) r] by simp_all
  then show ?thesis using assms by (auto simp: param_ok_def split: option.splits)
qed

lemma apply_param_ok:
  assumes "i < length (params st)" "\<forall>p \<in> set (params st). param_ok sz p" "length g = sz"
  shows "\<exists>st'. apply_param c rnd i g st = Inr st' \<and> (\<forall>p \<in> set (params st'). param_ok sz p)"
proof -
  let ?p = "params st ! i"
  have ok: "param_ok sz ?p" using assms(1,2) by simp
  then have r: "0 < rows (data ?p)" by (rule param_ok_rows)
  from ok have k: "0 < cols (data ?p)" and re: "rect (rows (data ?p)) (cols (data ?p)) (data ?p)"
    and sz: "rows (data ?p) * cols (data ?p) = sz" by (simp_all add: param_ok_def)
  obtain p' where p': "apply_update c (data ?p) g (fst (randn rnd (rng_pos st) (rows (data ?p)))) = Inr p'"
    and rp: "rect (rows (data ?p)) (cols (data ?p)) p'"
    using apply_update_ok[OF re r k] assms(3) sz by metis
  have "param_ok sz (?p\<lparr>data := p'\<rparr>)" using ok rp by (rule param_ok_data)
  then have "\<forall>p \<in> set ((params st)[i := ?p\<lparr>data := p'\<rparr>]). param_ok sz p"
    using assms(2) by (auto dest!: set_update_subset_insert[THEN subsetD])
  then show ?thesis using p'
    by (simp add: apply_param_def Let_def randn_def split: prod.splits)
qed

lemma apply_all_ok:
  assumes "\<forall>z \<in> set zs. fst z < length (params st) \<and> length (snd z) = sz"
    "\<forall>p \<in> set (params st). param_ok sz p"
  shows "\<exists>st'. apply_all c rnd zs st = Inr st' \<and> (\<forall>p \<in> set (params st'). param_ok sz p)"
  using assms
proof (induction zs arbitrary: st)
  case Nil
  then show ?case by simp
next
  case (Cons z zs)
  obtain i g where z: "z = (i, g)" by (cases z)
  from Cons.prems z have "i < length (params st)" "length g = sz" by simp_all
  from apply_param_ok[OF this(1) Cons.prems(2) this(2)] obtain st1 where
    1: "apply_param c rnd i g st = Inr st1" and ok1: "\<forall>p \<in> set (params st1). param_ok sz p"
    by blast
  have "length (params st1) = length (params st)" using apply_param_frame(5)[OF 1] .
  then have "\<forall>z \<in> set zs. fst z < length (params st1) \<and> length (snd z) = sz"
    using Cons.prems(1) by simp
  from Cons.IH[OF this ok1] show ?case using 1 z by simp
qed

lemma update_prev_ok:
  assumes inv: "loop_inv c sz st" and h: "handle st \<noteq> None"
  shows "\<exists>st'. update_prev c rnd st = Inr st' \<and> loop_inv c sz st'"
proof -
  from h obtain y where y: "handle st = Some y" by auto
  have "\<exists>st1. wait st = Inr st1" by (cases y) (simp_all add: wait_def y)
  then obtain st1 where w: "wait st = Inr st1" by blast
  have ub: "rows_ok (world_size c) sz (update_buffer st1)"
    using w inv by (auto simp: wait_def loop_inv_def split: option.splits work.splits)
  have same: "params st1 = params st" "params_world st1 = params_world st"
    using w by (auto simp: wait_def split: option.splits work.splits)
  have hd: "\<exists>b. handle st1 = Some (Done b)"
    using w by (auto simp: wait_def split: option.splits work.splits)
  let ?s = "st1\<lparr>trace := trace st1 @ [Apply (handle_base st1)]\<rparr>"
  let ?zs = "zip (params_world st1) (update_buffer st1)"
  have z: "\<forall>z \<in> set ?zs. fst z < length (params ?s) \<and> length (snd z) = sz"
  proof
    fix z assume zin: "z \<in> set ?zs"
    obtain i g where zz: "z = (i, g)" by (cases z)
    have "i \<in> set (params_world st1)" using zin zz by (auto dest: set_zip_leftD)
    moreover have "g \<in> set (update_buffer st1)" using zin zz by (auto dest: set_zip_rightD)
    ultimately have "i < length (params st)" "length g = sz"
      using inv ub same by (simp_all add: loop_inv_def rows_ok_def)
    then show "fst z < length (params ?s) \<and> length (snd z) = sz"
      using zz same by simp
  qed
  have p: "\<forall>p \<in> set (params ?s). param_ok sz p" using inv same by (simp add: loop_inv_def)
  from apply_all_ok[OF z p] obtain st' where
    a: "apply_all c rnd ?zs ?s = Inr st'" and ok: "\<forall>p \<in> set (params st'). param_ok sz p"
    by blast
  note f = apply_all_frame[OF a]
  have "loop_inv c sz st'"
    using inv ub ok f hd same by (auto simp: loop_inv_def)
  moreover have "update_prev c rnd st = Inr st'" using w a by (simp add: update_prev_def)
  ultimately show ?thesis by blast
qed

lemma rect_momentum_update:
  assumes "rect r k g" "case m of None \<Rightarrow> True | Some b \<Rightarrow> rect r k b"
    and "momentum_update c g m = (g', buf, gg)"
  shows "rect r k g' \<and> rect r k buf \<and> rect r k gg"
proof -
  define b0 where "b0 = (case m of None \<Rightarrow> zeros_like g | Some b \<Rightarrow> b)"
  have b0: "rect r k b0"
    using assms(1,2) by (auto simp: b0_def rect_zeros_like split: option.splits)
  have b1: "rect r k (lerp b0 g (1 - momentum c))" using b0 assms(1) by (rule rect_lerp)
  have b2: "rect r k (lerp g (lerp b0 g (1 - momentum c)) (momentum c))"
    using assms(1) b1 by (rule rect_lerp)
  show ?thesis
    using assms(3) assms(1) b1 b2
    by (auto simp: momentum_update_def Let_def b0_def[symmetric] split: if_splits)
qed

lemma iterate_ok:
  assumes inv: "loop_inv c sz st"
  shows "\<exists>g st1. iterate c b st = Inr (g, st1) \<and> loop_inv c sz st1 \<and> handle st1 = handle st \<and>
           (case g of Fresh v \<Rightarrow> length v = sz | BufferView r \<Rightarrow> r = rank c)"
proof (cases "assigned (length (params st)) b (rank c)")
  case None
  have "rank c < length (update_buffer st)" using inv by (simp add: loop_inv_def rows_ok_def)
  then have "iterate c b st = Inr (BufferView (rank c), st\<lparr>trace := trace st @ [Iterate b]\<rparr>)"
    using None by (simp add: iterate_def Let_def)
  moreover have "loop_inv c sz (st\<lparr>trace := trace st @ [Iterate b]\<rparr>)"
    using inv by (simp add: loop_inv_def)
  ultimately show ?thesis by simp
next
  case (Some i)
  then have i: "i < length (params st)" by (auto simp: assigned_def split: if_splits)
  let ?p = "params st ! i"
  have ok: "param_ok sz ?p" using inv i by (simp add: loop_inv_def)
  then have r: "0 < rows (data ?p)" by (rule param_ok_rows)
  from ok obtain g where g: "grad ?p = Some g" and rg: "rect (rows (data ?p)) (cols (data ?p)) g"
    by (auto simp: param_ok_def split: option.splits)
  from ok have rm: "case momentum_buffer ?p of None \<Rightarrow> True
      | Some m \<Rightarrow> rect (rows (data ?p)) (cols (data ?p)) m"
    and k: "0 < cols (data ?p)" and sz: "rows (data ?p) * cols (data ?p) = sz"
    by (simp_all add: param_ok_def)
  obtain g' buf gg where mu: "momentum_update c g (momentum_buffer ?p) = (g', buf, gg)"
    by (cases "momentum_update c g (momentum_buffer ?p)") auto
  note rr = rect_momentum_update[OF rg rm mu]
  have "rect (rows (data ?p)) (cols (data ?p)) (orthogonalize g')"
    using rr r k by (intro rect_orthogonalize) simp_all
  then have lf: "length (flatten (orthogonalize g')) = sz"
    using length_flatten_rect sz by blast
  let ?p' = "?p\<lparr>grad := Some gg, momentum_buffer := Some buf\<rparr>"
  let ?st1 = "st\<lparr>trace := trace st @ [Iterate b], params := (params st)[i := ?p']\<rparr>"
  have e: "iterate c b st = Inr (Fresh (flatten (orthogonalize g')), ?st1)"
    using Some g mu by (simp add: iterate_def Let_def)
  have "param_ok sz ?p'" using ok rr by (simp add: param_ok_def)
  then have "\<forall>p \<in> set ((params st)[i := ?p']). param_ok sz p"
    using inv by (auto simp: loop_inv_def dest!: set_update_subset_insert[THEN subsetD])
  then have "loop_inv c sz ?st1" using inv by (simp add: loop_inv_def)
  then show ?thesis using e lf by simp
qed

lemma gather_ok:
  assumes inv: "loop_inv c sz st" and pe: "\<forall>b r. length (peers b r) = sz"
    and g: "case g of Fresh v \<Rightarrow> length v = sz | BufferView r \<Rightarrow> r = rank c"
  shows "\<exists>st'. gather c peers b g st = Inr st' \<and> loop_inv c sz st' \<and> handle st' \<noteq> None"
proof -
  have rk: "rank c < length (update_buffer st)" using inv by (simp add: loop_inv_def rows_ok_def)
  obtain v where v: "resolve st g = Inr v" and lv: "length v = sz"
  proof (cases g)
    case (Fresh v)
    then show ?thesis using g that by (simp add: resolve_def)
  next
    case (BufferView r)
    then have "r = rank c" using g by simp
    moreover have "length (update_buffer st ! rank c) = sz"
      using inv rk by (simp add: loop_inv_def rows_ok_def)
    ultimately show ?thesis using BufferView rk that by (simp add: resolve_def)
  qed
  have "rows_ok (world_size c) sz (all_gather c peers b v)"
    using pe lv by (auto simp: rows_ok_def all_gather_def)
  then have "loop_inv c sz (st\<lparr>handle := Some (Pending b (all_gather c peers b v)),
       params_world := [b..<min (b + world_size c) (length (params st))],
       trace := trace st @ [Gather b]\<rparr>)"
    using inv by (simp add: loop_inv_def)
  then show ?thesis using v by (simp add: gather_def)
qed

lemma shard_step_ok:
  assumes inv: "loop_inv c sz st" and pe: "\<forall>b r. length (peers b r) = sz"
    and h: "b = 0 \<or> handle st \<noteq> None"
  shows "\<exists>st'. shard_step c rnd peers b st = Inr st' \<and> loop_inv c sz st' \<and> handle st' \<noteq> None"
proof -
  from iterate_ok[OF inv, of b] obtain g st1 where
    i: "iterate c b st = Inr (g, st1)" and inv1: "loop_inv c sz st1"
    and h1: "handle st1 = handle st"
    and g: "case g of Fresh v \<Rightarrow> length v = sz | BufferView r \<Rightarrow> r = rank c"
    by blast
  obtain st2 where u: "(if b > 0 then update_prev c rnd st1 else Inr st1) = Inr st2"
    and inv2: "loop_inv c sz st2"
  proof (cases "b > 0")
    case True
    then have "handle st1 \<noteq> None" using h h1 by simp
    from update_prev_ok[OF inv1 this] True that show ?thesis by auto
  next
    case False
    then show ?thesis using inv1 that by simp
  qed
  from gather_ok[OF inv2 pe g] obtain st' where
    "gather c peers b g st2 = Inr st'" "loop_inv c sz st'" "handle st' \<noteq> None" by blast
  then show ?thesis using i u by (simp add: shard_step_def)
qed

lemma step_loop_ok:
  assumes "loop_inv c sz st" and pe: "\<forall>b r. length (peers b r) = sz"
    and "bs = [] \<or> hd bs = 0 \<or> handle st \<noteq> None"
  shows "\<exists>st'. step_loop c rnd peers bs st = Inr st' \<and> loop_inv c sz st' \<and>
           (bs \<noteq> [] \<longrightarrow> handle st' \<noteq> None)"
  using assms(1,3)
proof (induction bs arbitrary: st)
  case Nil
  then show ?case by simp
next
  case (Cons b bs)
  then have "b = 0 \<or> handle st \<noteq> None" by simp
  from shard_step_ok[OF Cons.prems(1) pe this] obtain st1 where
    1: "shard_step c rnd peers b st = Inr st1" and inv1: "loop_inv c sz st1"
    and h1: "handle st1 \<noteq> None" by blast
  from Cons.IH[OF inv1] h1 obtain st' where
    2: "step_loop c rnd peers bs st1 = Inr st'" and inv': "loop_inv c sz st'"
    and h': "bs \<noteq> [] \<longrightarrow> handle st' \<noteq> None" by blast
  have "handle st' \<noteq> None"
  proof (cases "bs = []")
    case True
    then show ?thesis using 2 h1 by simp
  next
    case False
    then show ?thesis using h' by simp
  qed
  then show ?case using 1 2 inv' by simp
qed

lemma step_group_returns:
  assumes "group_ok c peers sz st"
  shows "\<exists>st'. step_group c rnd peers st = Inr st'"
proof -
  let ?st0 = "st\<lparr>handle := None, params_world := []\<rparr>"
  from assms have w: "0 < world_size c" and n: "0 < length (params st)"
    and pe: "\<forall>b r. length (peers b r) = sz"
    by (simp_all add: group_ok_def)
  have inv: "loop_inv c sz ?st0" using assms by (simp add: group_ok_def loop_inv_def)
  obtain bases where sb: "shard_bases (length (params st)) (world_size c) = Inr bases"
    using w by (simp add: shard_bases_def)
  from shard_bases_shape[OF sb n] obtain rest where br: "bases = 0 # rest" by blast
  then have "bases = [] \<or> hd bases = 0 \<or> handle ?st0 \<noteq> None" by simp
  from step_loop_ok[OF inv pe this] br obtain st1 where
    l: "step_loop c rnd peers bases ?st0 = Inr st1" and inv1: "loop_inv c sz st1"
    and h1: "handle st1 \<noteq> None" by blast
  from update_prev_ok[OF inv1 h1] obtain st' where "update_prev c rnd st1 = Inr st'" by blast
  then show ?thesis using sb l by (simp add: step_group_def Let_def)
qed

text \<open>
  Claim C1. The step of a well-formed group returns. Whenever the step of a group returns,
  the group has at least one parameter, the shard steps start at 0 and are distinct, and
  the events of the step are such that: for every shard step after the first, the APPLY of
  the previous shard comes immediately before the GATHER of this one; the step opens with
  ITERATE and GATHER of shard 0, with no APPLY before; every shard is gathered once and
  applied once, in order; the last event is the APPLY of the last shard, and the handle
  left behind is completed.
\<close>

theorem step_group_sequencing:
  "(group_ok c peers sz st \<longrightarrow> (\<exists>st'. step_group c rnd peers st = Inr st')) \<and>
   (\<forall>st'. step_group c rnd peers st = Inr st' \<longrightarrow>
      (\<exists>bases tr. shard_bases (length (params st)) (world_size c) = Inr bases \<and>
         bases \<noteq> [] \<and> distinct bases \<and> hd bases = 0 \<and>
         trace st' = trace st @ tr \<and>
         (\<forall>i. 0 < i \<and> i < length bases \<longrightarrow>
            (\<exists>xs ys. tr = xs @ [Apply (bases ! (i - 1)), Gather (bases ! i)] @ ys)) \<and>
         (\<exists>ys. tr = [Iterate 0, Gather 0] @ ys) \<and>
         filter is_gather tr = map Gather bases \<and>
         filter is_apply tr = map Apply bases \<and>
         last tr = Apply (last bases) \<and>
         handle st' = Some (Done (last bases))))"
proof (intro conjI impI allI)
  assume "group_ok c peers sz st"
  then show "\<exists>st'. step_group c rnd peers st = Inr st'" by (rule step_group_returns)
next
  fix st' assume "step_group c rnd peers st = Inr st'"
  then show "\<exists>bases tr. shard_bases (length (params st)) (world_size c) = Inr bases \<and>
         bases \<noteq> [] \<and> distinct bases \<and> hd bases = 0 \<and>
         trace st' = trace st @ tr \<and>
         (\<forall>i. 0 < i \<and> i < length bases \<longrightarrow>
            (\<exists>xs ys. tr = xs @ [Apply (bases ! (i - 1)), Gather (bases ! i)] @ ys)) \<and>
         (\<exists>ys. tr = [Iterate 0, Gather 0] @ ys) \<and>
         filter is_gather tr = map Gather bases \<and>
         filter is_apply tr = map Apply bases \<and>
         last tr = Apply (last bases) \<and>
         handle st' = Some (Done (last bases))"
    by (rule step_group_trace)
qed

subsection \<open>The small run\<close>

lemma apply_update_zero11: "0 < w_max c \<Longrightarrow> apply_update c [[0]] [0] u = Inr [[0]]"
  by (simp add: apply_update_def cols_def rows_def view_as_def scale_of_def madd_def smul_def
      power_iteration_from_zero11 rescale_def mdiv_def Let_def)

lemma momentum_update_zero11: "momentum_update c [[0]] None = ([[0]], [[0]], [[0]])"
  by (simp add: momentum_update_def lerp_def zeros_like_def Let_def)

lemma apply_param_zero11:
  assumes "0 < w_max c" "i < length (params st)" "data (params st ! i) = [[0]]"
  shows "apply_param c rnd i [0] st = Inr (st\<lparr>params := (params st)[i := (params st ! i)\<lparr>data := [[0]]\<rparr>],
            rng_pos := rng_pos st + 1\<rparr>)"
  using assms by (simp add: apply_param_def randn_def rows_def apply_update_zero11 Let_def)

lemma scenario_run:
  "step_group scenario_cfg (\<lambda>_. 1) (\<lambda>_ _. [0]) scenario_state = Inr scenario_final"
  by (simp add: step_group_def shard_bases_def upt_rec shard_step_def iterate_def gather_def
      resolve_def all_gather_def update_prev_def wait_def handle_base_def apply_param_zero11
      scenario_cfg_def scenario_state_def scenario_final_def assigned_def zero_param_def
      momentum_update_zero11 orthogonalize_zero11 flatten_def Let_def)

lemma scenario_group_ok: "group_ok scenario_cfg (\<lambda>_ _. [0]) 1 scenario_state"
  by (simp add: group_ok_def rows_ok_def param_ok_def rect_def rows_def cols_def
      scenario_cfg_def scenario_state_def zero_param_def)

theorem step_group_sequencing_witness:
  "(\<exists>st'. step_group scenario_cfg (\<lambda>_. 1) (\<lambda>_ _. [0]) scenario_state = Inr st') \<and>
   (\<exists>bases tr. shard_bases (length (params scenario_state)) (world_size scenario_cfg) = Inr bases \<and>
     bases \<noteq> [] \<and> distinct bases \<and> hd bases = 0 \<and>
     trace scenario_final = trace scenario_state @ tr \<and>
     (\<forall>i. 0 < i \<and> i < length bases \<longrightarrow>
        (\<exists>xs ys. tr = xs @ [Apply (bases ! (i - 1)), Gather (bases ! i)] @ ys)) \<and>
     (\<exists>ys. tr = [Iterate 0, Gather 0] @ ys) \<and>
     filter is_gather tr = map Gather bases \<and>
     filter is_apply tr = map Apply bases \<and>
     last tr = Apply (last bases) \<and>
     handle scenario_final = Some (Done (last bases)))"
proof
  note t = step_group_sequencing [of scenario_cfg "\<lambda>_ _. [0]" 1 scenario_state "\<lambda>_. 1"]
  show "\<exists>st'. step_group scenario_cfg (\<lambda>_. 1) (\<lambda>_ _. [0]) scenario_state = Inr st'"
    using t [THEN conjunct1] scenario_group_ok by (rule mp)
  show "\<exists>bases tr. shard_bases (length (params scenario_state)) (world_size scenario_cfg) = Inr bases \<and>
     bases \<noteq> [] \<and> distinct bases \<and> hd bases = 0 \<and>
     trace scenario_final = trace scenario_state @ tr \<and>
     (\<forall>i. 0 < i \<and> i < length bases \<longrightarrow>
        (\<exists>xs ys. tr = xs @ [Apply (bases ! (i - 1)), Gather (bases ! i)] @ ys)) \<and>
     (\<exists>ys. tr = [Iterate 0, Gather 0] @ ys) \<and>
     filter is_gather tr = map Gather bases \<and>
     filter is_apply tr = map Apply bases \<and>
     last tr = Apply (last bases) \<and>
     handle scenario_final = Some (Done (last bases))"
    using t [THEN conjunct2, THEN spec, of scenario_final] scenario_run by (rule mp)
qed

subsection \<open>The placeholder of a device without a parameter\<close>

lemma update_prev_buffer:
  assumes "update_prev c rnd st = Inr st'"
  shows "update_buffer st' = (case handle st of Some (Pending b rs) \<Rightarrow> rs | _ \<Rightarrow> update_buffer st)"
proof -
  from assms obtain st1 where w: "wait st = Inr st1"
    and a: "apply_all c rnd (zip (params_world st1) (update_buffer st1))
              (st1\<lparr>trace := trace st1 @ [Apply (handle_base st1)]\<rparr>) = Inr st'"
    by (auto simp: update_prev_def split: sum.splits)
  from w have "update_buffer st1 = (case handle st of Some (Pending b rs) \<Rightarrow> rs | _ \<Rightarrow> update_buffer st)"
    by (auto simp: wait_def split: option.splits work.splits)
  with apply_all_frame[OF a] show ?thesis by simp
qed

lemma all_gather_own: "rank c < world_size c \<Longrightarrow> all_gather c peers b v ! rank c = v"
  by (simp add: all_gather_def)

lemma all_gather_length: "length (all_gather c peers b v) = world_size c"
  by (simp add: all_gather_def)


text \<open>
  Claim C8, as the code has it. At a shard step where the device's index
  \<open>base_i + rank\<close> is outside the parameter list, the device hands
  \<open>update_buffer_views[rank]\<close> to the all-gather: its own row of the gather buffer as it
  stands when the gather is issued. Nothing zeroes that row. At the first shard step it is
  the row the buffer held on entry; at a later one it is the row that the previous gather,
  just awaited, put there.
\<close>

theorem placeholder_is_own_row:
  assumes "assigned (length (params st)) b (rank c) = None"
    and "shard_step c rnd peers b st = Inr st'"
    and "rank c < world_size c"
  shows "\<exists>rs. handle st' = Some (Pending b rs) \<and>
           rs ! rank c = update_buffer st' ! rank c \<and>
           (b = 0 \<longrightarrow> rs ! rank c = update_buffer st ! rank c) \<and>
           (0 < b \<longrightarrow> (\<forall>b0 rs0. handle st = Some (Pending b0 rs0) \<longrightarrow> rs ! rank c = rs0 ! rank c))"
proof -
  from assms(2) obtain g st1 st2 where i: "iterate c b st = Inr (g, st1)"
    and u: "(if b > 0 then update_prev c rnd st1 else Inr st1) = Inr st2"
    and ga: "gather c peers b g st2 = Inr st'"
    by (auto simp: shard_step_def split: sum.splits prod.splits)
  from i assms(1) have g: "g = BufferView (rank c)"
    by (auto simp: iterate_def Let_def split: if_splits)
  note fi = iterate_frame[OF i]
  from gather_frame[OF ga] obtain v where v: "resolve st2 g = Inr v"
    and h: "handle st' = Some (Pending b (all_gather c peers b v))"
    and ub: "update_buffer st' = update_buffer st2" by blast
  from v g have vv: "v = update_buffer st2 ! rank c"
    by (auto simp: resolve_def split: if_splits)
  have own: "all_gather c peers b v ! rank c = update_buffer st2 ! rank c"
    using all_gather_own[OF assms(3)] vv by simp
  have z: "b = 0 \<longrightarrow> update_buffer st2 = update_buffer st" using u fi by auto
  have p: "update_buffer st2 = rs0" if "0 < b" "handle st = Some (Pending b0 rs0)" for b0 rs0
  proof -
    from that u have "update_prev c rnd st1 = Inr st2" by simp
    from update_prev_buffer[OF this] that fi show ?thesis by simp
  qed
  show ?thesis using h own ub z p by auto
qed



lemma placeholder_shard_step:
  "shard_step placeholder_cfg (\<lambda>_. 1) (\<lambda>_ _. [0]) 0 placeholder_state =
     Inr (placeholder_state\<lparr>handle := Some (Pending 0 [[0], [5]]), params_world := [0],
            trace := [Iterate 0, Gather 0]\<rparr>)"
  by (simp add: shard_step_def iterate_def gather_def resolve_def all_gather_def assigned_def
      placeholder_cfg_def placeholder_state_def scenario_cfg_def upt_rec Let_def)

theorem placeholder_is_own_row_witness:
  "\<exists>rs. handle (placeholder_state\<lparr>handle := Some (Pending 0 [[0], [5]]), params_world := [0],
            trace := [Iterate 0, Gather 0]\<rparr>) = Some (Pending 0 rs) \<and> rs ! 1 = [5]"
  using placeholder_is_own_row [OF _ placeholder_shard_step]
  by (simp add: assigned_def placeholder_cfg_def placeholder_state_def scenario_cfg_def)


text \<open>
  The claim as stated fails for one parameter and two devices: device 1 has no parameter at
  shard step 0, and the row it hands to the all-gather is the \<open>[5]\<close> its buffer held, not
  zeros.
\<close>

theorem placeholder_not_zero:
  "assigned (length (params placeholder_state)) 0 (rank placeholder_cfg) = None \<and>
   shard_step placeholder_cfg (\<lambda>_. 1) (\<lambda>_ _. [0]) 0 placeholder_state =
     Inr (placeholder_state\<lparr>handle := Some (Pending 0 [[0], [5]]), params_world := [0],
            trace := [Iterate 0, Gather 0]\<rparr>) \<and>
   [[0], [5 :: real]] ! rank placeholder_cfg = [5] \<and> [5] \<noteq> [0 :: real]"
proof (intro conjI)
  show "assigned (length (params placeholder_state)) 0 (rank placeholder_cfg) = None"
    by (simp add: assigned_def placeholder_cfg_def placeholder_state_def)
  show "shard_step placeholder_cfg (\<lambda>_. 1) (\<lambda>_ _. [0]) 0 placeholder_state =
     Inr (placeholder_state\<lparr>handle := Some (Pending 0 [[0], [5]]), params_world := [0],
            trace := [Iterate 0, Gather 0]\<rparr>)"
    by (rule placeholder_shard_step)
  show "[[0], [5 :: real]] ! rank placeholder_cfg = [5]"
    by (simp add: placeholder_cfg_def)
  show "[5] \<noteq> [0 :: real]" by simp
qed

subsection \<open>APPLY reads only the slots that have a parameter\<close>

lemma apply_param_buffer:
  "apply_param c rnd i g (st\<lparr>update_buffer := B\<rparr>) =
     map_sum id (\<lambda>s. s\<lparr>update_buffer := B\<rparr>) (apply_param c rnd i g st)"
  by (simp add: apply_param_def Let_def randn_def split: sum.splits)

lemma apply_all_buffer:
  "apply_all c rnd zs (st\<lparr>update_buffer := B\<rparr>) =
     map_sum id (\<lambda>s. s\<lparr>update_buffer := B\<rparr>) (apply_all c rnd zs st)"
proof (induction zs arbitrary: st)
  case Nil
  show ?case by simp
next
  case (Cons z zs)
  obtain i g where z: "z = (i, g)" by (cases z)
  show ?case
  proof (cases "apply_param c rnd i g st")
    case (Inl e)
    then show ?thesis by (simp add: z apply_param_buffer)
  next
    case (Inr st1)
    then show ?thesis using Cons.IH[of st1] by (simp add: z apply_param_buffer)
  qed
qed

lemma zip_agree:
  assumes "\<forall>k < length xs. ys ! k = zs ! k" and "length xs \<le> length ys" and "length xs \<le> length zs"
  shows "zip xs ys = zip xs zs"
proof (rule nth_equalityI)
  show "length (zip xs ys) = length (zip xs zs)" using assms by simp
next
  fix i assume "i < length (zip xs ys)"
  then show "zip xs ys ! i = zip xs zs ! i" using assms by simp
qed


lemma update_prev_ignores_tail:
  assumes h1: "handle st1 = Some (Pending b rs1)" and h2: "st2 = st1\<lparr>handle := Some (Pending b rs2)\<rparr>"
    and pw: "params_world st1 = [b..<min (b + world_size c) (length (params st1))]"
    and l1: "length rs1 = world_size c" and l2: "length rs2 = world_size c"
    and agree: "\<forall>r < world_size c. b + r < length (params st1) \<longrightarrow> rs1 ! r = rs2 ! r"
  shows "length (zip (params_world st1) rs1) = min (world_size c) (length (params st1) - b) \<and>
         map_sum id (\<lambda>s. (params s, rng_pos s)) (update_prev c rnd st1) =
         map_sum id (\<lambda>s. (params s, rng_pos s)) (update_prev c rnd st2) \<and>
         (\<forall>st'. update_prev c rnd st1 = Inr st' \<longrightarrow>
            map momentum_buffer (params st') = map momentum_buffer (params st1) \<and>
            (\<forall>j. j < b \<or> min (b + world_size c) (length (params st1)) \<le> j \<longrightarrow>
                 params st' ! j = params st1 ! j))"
proof -
  let ?pw = "[b..<min (b + world_size c) (length (params st1))]"
  have len: "length ?pw = min (world_size c) (length (params st1) - b)" by auto
  have 1: "length (zip (params_world st1) rs1) = min (world_size c) (length (params st1) - b)"
    using pw l1 by auto
  have "\<forall>k < length ?pw. rs1 ! k = rs2 ! k" using agree by auto
  then have z: "zip ?pw rs1 = zip ?pw rs2"
    using l1 l2 by (intro zip_agree) auto
  define s where "s = st1\<lparr>handle := Some (Done b), trace := trace st1 @ [Apply b]\<rparr>"
  have e1: "st1\<lparr>update_buffer := rs, handle := Some (Done b), trace := trace st1 @ [Apply b]\<rparr>
      = s\<lparr>update_buffer := rs\<rparr>" for rs
    by (cases st1) (simp add: s_def)
  have u1: "update_prev c rnd st1 = apply_all c rnd (zip ?pw rs1) (s\<lparr>update_buffer := rs1\<rparr>)"
    using h1 pw by (simp add: update_prev_def wait_def handle_base_def e1)
  have u2: "update_prev c rnd st2 = apply_all c rnd (zip ?pw rs2) (s\<lparr>update_buffer := rs2\<rparr>)"
    using h2 pw by (simp add: update_prev_def wait_def handle_base_def e1)
  have 2: "map_sum id (\<lambda>s. (params s, rng_pos s)) (update_prev c rnd st1) =
         map_sum id (\<lambda>s. (params s, rng_pos s)) (update_prev c rnd st2)"
    unfolding u1 u2 z apply_all_buffer
    by (cases "apply_all c rnd (zip ?pw rs2) s") simp_all
  have 3: "map momentum_buffer (params st') = map momentum_buffer (params st1) \<and>
            (\<forall>j. j < b \<or> min (b + world_size c) (length (params st1)) \<le> j \<longrightarrow>
                 params st' ! j = params st1 ! j)"
    if "update_prev c rnd st1 = Inr st'" for st'
  proof -
    note f = update_prev_frame[OF that]
    have "j \<notin> set (params_world st1)"
      if "j < b \<or> min (b + world_size c) (length (params st1)) \<le> j" for j
      using that by (auto simp: pw)
    then show ?thesis using f by blast
  qed
  show ?thesis using 1 2 3 by blast
qed

lemma gather_result:
  assumes "gather c peers b g st = Inr st'"
  shows "\<exists>v. resolve st g = Inr v \<and>
           st' = st\<lparr>handle := Some (Pending b (all_gather c peers b v)),
                    params_world := [b..<min (b + world_size c) (length (params st))],
                    trace := trace st @ [Gather b]\<rparr>"
  using assms by (auto simp: gather_def split: sum.splits)


text \<open>
  Claim C10. Take the all-gather issued at a shard step \<open>b\<close> in two environments that
  agree on what every device with a parameter (\<open>b + r < n\<close>) contributes, and differ freely
  in what the other devices do. APPLY zips the gathered rows against
  \<open>params[b : b + world_size]\<close>, so it applies \<open>min(world_size, n - b)\<close> rows; it ends in the
  same error, or in the same parameters and the same generator position, in both
  environments. It never writes a momentum buffer, and it leaves every parameter outside
  the slice as it was.
\<close>

theorem placeholders_not_applied:
  assumes g1: "gather c peers1 b g1 st = Inr st1" and g2: "gather c peers2 b g2 st = Inr st2"
    and pe: "\<forall>r. r \<noteq> rank c \<and> b + r < length (params st) \<longrightarrow> peers1 b r = peers2 b r"
    and ow: "b + rank c < length (params st) \<longrightarrow> resolve st g1 = resolve st g2"
  shows "\<exists>rs1 rs2. handle st1 = Some (Pending b rs1) \<and> handle st2 = Some (Pending b rs2) \<and>
           length (zip (params_world st1) rs1) = min (world_size c) (length (params st) - b) \<and>
           map_sum id (\<lambda>s. (params s, rng_pos s)) (update_prev c rnd st1) =
           map_sum id (\<lambda>s. (params s, rng_pos s)) (update_prev c rnd st2) \<and>
           (\<forall>st'. update_prev c rnd st1 = Inr st' \<longrightarrow>
              map momentum_buffer (params st') = map momentum_buffer (params st) \<and>
              (\<forall>j. j < b \<or> min (b + world_size c) (length (params st)) \<le> j \<longrightarrow>
                   params st' ! j = params st ! j))"
proof -
  from gather_result[OF g1] obtain v1 where v1: "resolve st g1 = Inr v1"
    and s1: "st1 = st\<lparr>handle := Some (Pending b (all_gather c peers1 b v1)),
                    params_world := [b..<min (b + world_size c) (length (params st))],
                    trace := trace st @ [Gather b]\<rparr>" by blast
  from gather_result[OF g2] obtain v2 where v2: "resolve st g2 = Inr v2"
    and s2: "st2 = st\<lparr>handle := Some (Pending b (all_gather c peers2 b v2)),
                    params_world := [b..<min (b + world_size c) (length (params st))],
                    trace := trace st @ [Gather b]\<rparr>" by blast
  let ?rs1 = "all_gather c peers1 b v1" and ?rs2 = "all_gather c peers2 b v2"
  have p1: "params st1 = params st" using s1 by simp
  have h1: "handle st1 = Some (Pending b ?rs1)" using s1 by simp
  have h2: "handle st2 = Some (Pending b ?rs2)" using s2 by simp
  have e: "st2 = st1\<lparr>handle := Some (Pending b ?rs2)\<rparr>" using s1 s2 by simp
  have pw: "params_world st1 = [b..<min (b + world_size c) (length (params st1))]"
    using s1 by simp
  have agree: "\<forall>r < world_size c. b + r < length (params st1) \<longrightarrow> ?rs1 ! r = ?rs2 ! r"
  proof (intro allI impI)
    fix r assume r: "r < world_size c" and i: "b + r < length (params st1)"
    show "?rs1 ! r = ?rs2 ! r"
    proof (cases "r = rank c")
      case True
      then have "v1 = v2" using ow i v1 v2 p1 by simp
      then show ?thesis using r True by (simp add: all_gather_def)
    next
      case False
      then have "peers1 b r = peers2 b r" using pe i p1 by simp
      then show ?thesis using r False by (simp add: all_gather_def)
    qed
  qed
  note core = update_prev_ignores_tail[OF h1 e pw all_gather_length all_gather_length agree, of rnd]
  show ?thesis using core h1 h2 unfolding p1 by blast
qed

lemma scenario_gather:
  "gather scenario_cfg (\<lambda>_ _. [x]) 2 (Fresh [0]) scenario_state =
     Inr (scenario_state\<lparr>handle := Some (Pending 2 [[0], [x]]), params_world := [2],
            trace := [Gather 2]\<rparr>)"
  by (simp add: gather_def resolve_def all_gather_def scenario_cfg_def scenario_state_def upt_rec)

theorem placeholders_not_applied_witness:
  "\<exists>rs1 rs2.
     handle (scenario_state\<lparr>handle := Some (Pending 2 [[0], [0]]), params_world := [2],
            trace := [Gather 2]\<rparr>) = Some (Pending 2 rs1) \<and>
     handle (scenario_state\<lparr>handle := Some (Pending 2 [[0], [7]]), params_world := [2],
            trace := [Gather 2]\<rparr>) = Some (Pending 2 rs2) \<and>
     length (zip (params_world (scenario_state\<lparr>handle := Some (Pending 2 [[0], [0]]),
            params_world := [2], trace := [Gather 2]\<rparr>)) rs1) =
       min (world_size scenario_cfg) (length (params scenario_state) - 2) \<and>
     map_sum id (\<lambda>s. (params s, rng_pos s))
       (update_prev scenario_cfg (\<lambda>_. 1) (scenario_state\<lparr>handle := Some (Pending 2 [[0], [0]]),
            params_world := [2], trace := [Gather 2]\<rparr>)) =
     map_sum id (\<lambda>s. (params s, rng_pos s))
       (update_prev scenario_cfg (\<lambda>_. 1) (scenario_state\<lparr>handle := Some (Pending 2 [[0], [7]]),
            params_world := [2], trace := [Gather 2]\<rparr>))"
proof -
  have pe: "\<forall>r. r \<noteq> rank scenario_cfg \<and> 2 + r < length (params scenario_state) \<longrightarrow>
      (\<lambda>_ _. [0::real]) 2 r = (\<lambda>_ _. [7]) (2::nat) r"
    by (auto simp: scenario_cfg_def scenario_state_def)
  have ow: "2 + rank scenario_cfg < length (params scenario_state) \<longrightarrow>
      resolve scenario_state (Fresh [0]) = resolve scenario_state (Fresh [0])"
    by simp
  show ?thesis
    using placeholders_not_applied [OF scenario_gather [of 0] scenario_gather [of 7] pe ow, of "\<lambda>_. 1"]
    by blast
qed

subsection \<open>The spectral cap of APPLY\<close>

lemma pi_step_unfold:
  "pi_step M = (\<lambda>v. let w = vecmat (vecmat v M) (mT M) in vdiv w (vnorm w + 1 / 10 ^ 8))"
  by (rule ext) (simp add: pi_step_def Let_def)

lemma apply_param_result:
  assumes "apply_param c rnd i g st = Inr st1" "i < length (params st)"
  shows "apply_update c (data (params st ! i)) g
           (map rnd [rng_pos st..<rng_pos st + rows (data (params st ! i))])
         = Inr (data (params st1 ! i))"
  using assms
  by (auto simp: apply_param_def Let_def randn_def split: sum.splits)

lemma apply_all_each:
  assumes "apply_all c rnd zs st = Inr st'" "distinct (map fst zs)"
    "\<forall>z \<in> set zs. fst z < length (params st)"
  shows "\<forall>z \<in> set zs. \<exists>pos.
           apply_update c (data (params st ! fst z)) (snd z)
             (map rnd [pos..<pos + rows (data (params st ! fst z))])
           = Inr (data (params st' ! fst z))"
  using assms
proof (induction zs arbitrary: st)
  case Nil
  then show ?case by simp
next
  case (Cons z zs)
  obtain i g where z: "z = (i, g)" by (cases z)
  from Cons.prems(1) z obtain st1 where 1: "apply_param c rnd i g st = Inr st1"
    and 2: "apply_all c rnd zs st1 = Inr st'"
    by (auto split: sum.splits)
  have il: "i < length (params st)" using Cons.prems(3) z by simp
  have ni: "i \<notin> fst ` set zs" using Cons.prems(2) z by simp
  have d: "distinct (map fst zs)" using Cons.prems(2) by simp
  have len: "length (params st1) = length (params st)" using apply_param_frame(5)[OF 1] .
  have r: "\<forall>z \<in> set zs. fst z < length (params st1)" using Cons.prems(3) len by simp
  note ih = Cons.IH[OF 2 d r]
  have keep: "params st' ! i = params st1 ! i"
    using apply_all_frame[OF 2] ni by simp
  have hd: "apply_update c (data (params st ! i)) g
              (map rnd [rng_pos st..<rng_pos st + rows (data (params st ! i))])
            = Inr (data (params st' ! i))"
    using apply_param_result[OF 1 il] keep by simp
  show ?case
  proof
    fix y assume y: "y \<in> set (z # zs)"
    show "\<exists>pos. apply_update c (data (params st ! fst y)) (snd y)
             (map rnd [pos..<pos + rows (data (params st ! fst y))])
           = Inr (data (params st' ! fst y))"
    proof (cases "y = z")
      case True
      then show ?thesis using hd z by auto
    next
      case False
      then have yin: "y \<in> set zs" using y by simp
      then have "fst y \<noteq> i" using ni by auto
      then have eq: "params st1 ! fst y = params st ! fst y"
        using apply_param_frame(8)[OF 1] by simp
      from ih yin obtain pos where
        "apply_update c (data (params st1 ! fst y)) (snd y)
           (map rnd [pos..<pos + rows (data (params st1 ! fst y))])
         = Inr (data (params st' ! fst y))"
        by blast
      then show ?thesis unfolding eq by (rule exI)
    qed
  qed
qed


text \<open>
  After every GATHER a gather is pending and the parameters it is for are distinct, as
  APPLY is assumed to find them below.
\<close>

lemma gather_pending_distinct:
  assumes "gather c peers b g st = Inr st'"
  shows "distinct (params_world st') \<and> (\<exists>rs. handle st' = Some (Pending b rs))"
  using gather_frame[OF assms] by auto

text \<open>
  Claim C2, as the code has it. Let APPLY run on a well-formed state whose gather is
  pending, with \<open>w_max > 0\<close>. It returns, and for every pair (parameter \<open>p\<close> of shape
  (rows, cols), gathered row \<open>g\<close>) of its loop there is a block \<open>u\<close> of \<open>rows\<close> numbers of the
  generator stream, the start vector drawn for \<open>p\<close>, such that: the new parameter is
  \<open>p - lr * sqrt(rows/cols) * g\<close>, entry by entry, divided by
  \<open>d = max(1, sigma / (w_max * sqrt(rows/cols))) + 1e-12\<close>, where \<open>sigma\<close> is the result of
  the 26 passes of the power iteration on the updated parameter from \<open>u\<close>; \<open>d\<close> is at least
  1, so no entry grows; and the same 26 passes from the same \<open>u\<close> on the new parameter give
  at most \<open>w_max * sqrt(rows/cols)\<close>, which is at most 1 when \<open>w_max = 1\<close> and the
  parameter is square. The estimator and the factor \<open>sqrt(rows/cols)\<close> are written out in
  the statement. Arithmetic is over the reals, so rounding and overflow are not covered:
  in float32 the sum \<open>max(1, .) + 1e-12\<close> rounds to \<open>max(1, .)\<close>, and an overflow of the
  iteration gives a NaN estimate (claim C5).
\<close>

theorem update_prev_caps:
  fixes c :: cfg and rnd :: "nat \<Rightarrow> real" and st :: state
  defines "est \<equiv> \<lambda>(u::vec) (M::mat).
     vnorm (vecmat (((\<lambda>v. let w = vecmat (vecmat v M) (mT M)
                           in vdiv w (vnorm w + 1 / 10 ^ 8)) ^^ 26) u) M)"
  defines "scale \<equiv> \<lambda>p::mat. sqrt (real (rows p) / real (cols p))"
  defines "upd \<equiv> \<lambda>(p::mat) (g::vec).
     map2 (map2 (\<lambda>x y. x - lr c * scale p * y)) p (unflatten (rows p) (cols p) g)"
  defines "dv \<equiv> \<lambda>(p::mat) (g::vec) (u::vec).
     max 1 (est u (upd p g) / (w_max c * scale p)) + 1 / 10 ^ 12"
  assumes inv: "loop_inv c sz st" and h: "handle st = Some (Pending b rs)"
    and dis: "distinct (params_world st)" and wm: "0 < w_max c"
  shows "\<exists>st'. update_prev c rnd st = Inr st' \<and>
           (\<forall>k < min (length (params_world st)) (length rs).
              \<exists>pos. let i = params_world st ! k; p = data (params st ! i); g = rs ! k;
                        u = map rnd [pos..<pos + rows p]; p' = data (params st' ! i)
                    in p' = map (map (\<lambda>x. x / dv p g u)) (upd p g) \<and> 1 \<le> dv p g u \<and>
                       est u p' \<le> w_max c * scale p \<and>
                       (w_max c = 1 \<and> rows p = cols p \<longrightarrow> est u p' \<le> 1))"
proof -
  let ?pw = "params_world st"
  define s where "s = st\<lparr>update_buffer := rs, handle := Some (Done b),
                         trace := trace st @ [Apply b]\<rparr>"
  have up: "update_prev c rnd st = apply_all c rnd (zip ?pw rs) s"
    by (simp add: update_prev_def wait_def h handle_base_def s_def)
  have ps: "params s = params st" by (simp add: s_def)
  have hn: "handle st \<noteq> None" using h by simp
  from update_prev_ok[OF inv hn] obtain st' where ok: "update_prev c rnd st = Inr st'"
    by blast
  then have a: "apply_all c rnd (zip ?pw rs) s = Inr st'" using up by simp
  have E: "power_iteration_from M u = est u M" for M u
    by (simp add: power_iteration_from_def est_def pi_step_unfold)
  have S: "scale_of p = scale p" for p by (simp add: scale_of_def scale_def)
  have dz: "distinct (map fst (zip ?pw rs))"
    using dis by (simp add: map_fst_zip_take distinct_take)
  have rg: "\<forall>z \<in> set (zip ?pw rs). fst z < length (params s)"
  proof
    fix z assume zin: "z \<in> set (zip ?pw rs)"
    obtain j g where zz: "z = (j, g)" by (cases z)
    have "j \<in> set ?pw" using zin zz by (auto dest: set_zip_leftD)
    then have "fst z \<in> set ?pw" using zz by simp
    then show "fst z < length (params s)" using inv ps by (simp add: loop_inv_def)
  qed
  note each = apply_all_each[OF a dz rg]
  have rsok: "rows_ok (world_size c) sz rs" using inv h by (simp add: loop_inv_def)
  have main: "\<exists>pos. let i = ?pw ! k; p = data (params st ! i); g = rs ! k;
                        u = map rnd [pos..<pos + rows p]; p' = data (params st' ! i)
                    in p' = map (map (\<lambda>x. x / dv p g u)) (upd p g) \<and> 1 \<le> dv p g u \<and>
                       est u p' \<le> w_max c * scale p \<and>
                       (w_max c = 1 \<and> rows p = cols p \<longrightarrow> est u p' \<le> 1)"
    if k: "k < min (length ?pw) (length rs)" for k
  proof -
    define i where "i = ?pw ! k"
    define p where "p = data (params st ! i)"
    define g where "g = rs ! k"
    have kz: "k < length (zip ?pw rs)" using k by simp
    have "zip ?pw rs ! k = (i, g)" using k by (simp add: i_def g_def)
    then have zin: "(i, g) \<in> set (zip ?pw rs)" using kz by (metis nth_mem)
    from each zin obtain pos where
      ap: "apply_update c p g (map rnd [pos..<pos + rows p]) = Inr (data (params st' ! i))"
      using ps by (auto simp: p_def)
    define u where "u = map rnd [pos..<pos + rows p]"
    have iin: "i \<in> set ?pw" using k by (simp add: i_def)
    then have il: "i < length (params st)" using inv by (simp add: loop_inv_def)
    then have pok: "param_ok sz (params st ! i)" using inv by (simp add: loop_inv_def)
    then have cp: "0 < cols p" and szp: "rows p * cols p = sz"
      by (simp_all add: param_ok_def p_def)
    have "g \<in> set rs" using k by (simp add: g_def)
    then have lg: "length g = rows p * cols p" using rsok szp by (simp add: rows_ok_def)
    note cap = apply_update_capped[OF wm cp lg, of u, unfolded E S]
    have u1: "upd p g = map2 (map2 (\<lambda>x y. x - lr c * scale p * y)) p
                          (unflatten (rows p) (cols p) g)"
      by (simp add: upd_def)
    have eq: "data (params st' ! i) = map (map (\<lambda>x. x / dv p g u)) (upd p g)"
      using cap ap by (simp add: u_def dv_def u1)
    have d1: "1 \<le> dv p g u" using cap by (simp add: dv_def u1)
    have b: "est u (data (params st' ! i)) \<le> w_max c * scale p"
      using cap eq by (simp add: dv_def u1)
    have b1: "est u (data (params st' ! i)) \<le> 1" if "w_max c = 1 \<and> rows p = cols p"
    proof -
      have "scale p = 1" using that cp by (simp add: scale_def)
      then show ?thesis using b that by simp
    qed
    have "let i = ?pw ! k; p = data (params st ! i); g = rs ! k;
              u = map rnd [pos..<pos + rows p]; p' = data (params st' ! i)
          in p' = map (map (\<lambda>x. x / dv p g u)) (upd p g) \<and> 1 \<le> dv p g u \<and>
             est u p' \<le> w_max c * scale p \<and>
             (w_max c = 1 \<and> rows p = cols p \<longrightarrow> est u p' \<le> 1)"
      unfolding Let_def using eq d1 b b1 by (simp add: i_def p_def g_def u_def)
    then show ?thesis ..
  qed
  show ?thesis using ok main by blast
qed

lemma unit_step_bounds:
  fixes t :: real
  assumes "1 \<le> t"
  shows "39 / 40 \<le> t / (\<bar>t\<bar> + 1 / 10 ^ 8) \<and> t / (\<bar>t\<bar> + 1 / 10 ^ 8) \<le> 1"
  using assms by (simp add: field_simps)

lemma vnorm_1: "vnorm [x] = \<bar>x\<bar>"
  by (simp add: vnorm_def)

lemma vnorm_2x: "vnorm [x, 0] = \<bar>x\<bar>"
  by (simp add: vnorm_def)

lemma vnorm_2y: "vnorm [0, y] = \<bar>y\<bar>"
  by (simp add: vnorm_def)

lemma vecmat_11: "vecmat [x] [[m]] = [x * m]"
  by (simp add: vecmat_def dot_def)

lemma pi_step_11: "pi_step [[m]] [x] = [x * m * m / (\<bar>x * m * m\<bar> + 1 / 10 ^ 8)]"
  by (simp add: pi_step_def mT_def vecmat_11 vdiv_def vnorm_1 Let_def)

lemma pi_iter_2:
  assumes "39 / 40 \<le> x" "x \<le> 1"
  shows "\<exists>y. (pi_step [[2]] ^^ k) [x] = [y] \<and> 39 / 40 \<le> y \<and> y \<le> 1"
proof (induction k)
  case 0
  show ?case using assms by simp
next
  case (Suc k)
  then obtain y where y: "(pi_step [[2]] ^^ k) [x] = [y]" "39 / 40 \<le> y" "y \<le> 1" by blast
  have "1 \<le> y * 2 * 2" using y(2) by simp
  from unit_step_bounds[OF this] show ?case by (simp add: y(1) pi_step_11)
qed

lemma estimate_2: "19 / 10 \<le> power_iteration_from [[2]] [1]"
proof -
  obtain y where y: "(pi_step [[2]] ^^ 26) [1] = [y]" "39 / 40 \<le> y" "y \<le> 1"
    using pi_iter_2[of 1 26] by auto
  have "19 / 10 \<le> \<bar>y * 2\<bar>" using y(2) by simp
  then show ?thesis by (simp add: power_iteration_from_def y(1) vecmat_11 vnorm_1)
qed

text \<open>
  The parameter \<open>[[2]]\<close> with a zero update and the cap 1: the estimate before the rescale
  is above 1.9, the divisor is above 1.9, and the estimate after the rescale is at most 1.
\<close>

theorem update_prev_caps_witness:
  "\<exists>st' d. update_prev capped_cfg (\<lambda>_. 1) capped_state = Inr st' \<and>
     data (params st' ! 0) = [[2 / d]] \<and> 19 / 10 \<le> d \<and>
     power_iteration_from (data (params st' ! 0)) [1] \<le> 1"
proof -
  have inv: "loop_inv capped_cfg 1 capped_state"
    by (simp add: loop_inv_def rows_ok_def param_ok_def rect_def rows_def cols_def
        capped_cfg_def scenario_cfg_def capped_state_def)
  have h: "handle capped_state = Some (Pending 0 [[0]])" by (simp add: capped_state_def)
  have dis: "distinct (params_world capped_state)" by (simp add: capped_state_def)
  have wm: "0 < w_max capped_cfg" by (simp add: capped_cfg_def scenario_cfg_def)
  have E: "vnorm (vecmat (((\<lambda>v. let w = vecmat (vecmat v M) (mT M)
                                 in vdiv w (vnorm w + 1 / 10 ^ 8)) ^^ 26) u) M)
           \<equiv> power_iteration_from M u" for M u
    by (simp add: power_iteration_from_def pi_step_unfold)
  from update_prev_caps[OF inv h dis wm, of "\<lambda>_. 1", unfolded E]
  obtain st' where 1: "update_prev capped_cfg (\<lambda>_. 1) capped_state = Inr st'"
    and 2: "\<exists>pos. let i = params_world capped_state ! 0; p = data (params capped_state ! i);
                       g = [[0]] ! 0; u = map (\<lambda>_. 1) [pos..<pos + rows p];
                       p' = data (params st' ! i)
                   in p' = map (map (\<lambda>x. x / (max 1 (power_iteration_from
                          (map2 (map2 (\<lambda>x y. x - lr capped_cfg * sqrt (real (rows p) / real (cols p)) * y))
                             p (unflatten (rows p) (cols p) g)) u
                          / (w_max capped_cfg * sqrt (real (rows p) / real (cols p)))) + 1 / 10 ^ 12)))
                        (map2 (map2 (\<lambda>x y. x - lr capped_cfg * sqrt (real (rows p) / real (cols p)) * y))
                             p (unflatten (rows p) (cols p) g)) \<and>
                      power_iteration_from p' u \<le> w_max capped_cfg * sqrt (real (rows p) / real (cols p))"
    by (auto simp: capped_state_def Let_def)
  define d where "d = max 1 (power_iteration_from [[2]] [1]) + 1 / 10 ^ 12"
  from 2 have 3: "data (params st' ! 0) = [[2 / d]] \<and>
                  power_iteration_from (data (params st' ! 0)) [1] \<le> 1"
    by (auto simp: capped_state_def capped_cfg_def scenario_cfg_def rows_def cols_def Let_def d_def)
  have "19 / 10 \<le> d" using estimate_2 by (simp add: d_def)
  then show ?thesis using 1 3 by blast
qed

lemma vecmat_diag: "vecmat [x, y] [[a, 0], [0, b]] = [x * a, y * b]"
  by (simp add: vecmat_def dot_def)

lemma pi_step_diag_x:
  "pi_step [[a, 0], [0, b]] [x, 0] = [x * a * a / (\<bar>x * a * a\<bar> + 1 / 10 ^ 8), 0]"
  by (simp add: pi_step_def mT_def vecmat_diag vdiv_def vnorm_2x Let_def)

lemma pi_step_diag_y:
  "pi_step [[a, 0], [0, b]] [0, y] = [0, y * b * b / (\<bar>y * b * b\<bar> + 1 / 10 ^ 8)]"
  by (simp add: pi_step_def mT_def vecmat_diag vdiv_def vnorm_2y Let_def)

lemma pi_iter_diag_y:
  assumes "0 \<le> y" "y \<le> 1"
  shows "\<exists>z. (pi_step [[4, 0], [0, 1]] ^^ k) [0, y] = [0, z] \<and> 0 \<le> z \<and> z \<le> 1"
proof (induction k)
  case 0
  show ?case using assms by simp
next
  case (Suc k)
  then obtain z where z: "(pi_step [[4, 0], [0, 1]] ^^ k) [0, y] = [0, z]" "0 \<le> z" "z \<le> 1"
    by blast
  have "0 \<le> z / (\<bar>z\<bar> + 1 / 10 ^ 8) \<and> z / (\<bar>z\<bar> + 1 / 10 ^ 8) \<le> 1"
    using z(2) by (simp add: field_simps)
  then show ?case by (simp add: z(1) pi_step_diag_y)
qed

lemma estimate_diag_low: "power_iteration_from [[4, 0], [0, 1]] [0, 1] \<le> 1"
proof -
  obtain z where z: "(pi_step [[4, 0], [0, 1]] ^^ 26) [0, 1] = [0, z]" "0 \<le> z" "z \<le> 1"
    using pi_iter_diag_y[of 1 26] by auto
  have "\<bar>z\<bar> \<le> 1" using z(2,3) by simp
  then show ?thesis
    by (simp add: power_iteration_from_def z(1) vecmat_diag vnorm_2y)
qed

lemma pi_iter_diag_x:
  assumes a: "21 / 20 \<le> a" and x: "39 / 40 \<le> x" "x \<le> 1"
  shows "\<exists>z. (pi_step [[a, 0], [0, b]] ^^ k) [x, 0] = [z, 0] \<and> 39 / 40 \<le> z \<and> z \<le> 1"
proof (induction k)
  case 0
  show ?case using x by simp
next
  case (Suc k)
  then obtain z where z: "(pi_step [[a, 0], [0, b]] ^^ k) [x, 0] = [z, 0]" "39 / 40 \<le> z" "z \<le> 1"
    by blast
  have "39 / 40 * (21 / 20) * (21 / 20) \<le> z * a * a" using z(2) a by (intro mult_mono) simp_all
  then have "1 \<le> z * a * a" by simp
  from unit_step_bounds[OF this] show ?case by (simp add: z(1) pi_step_diag_x)
qed

lemma estimate_diag_high:
  assumes a: "21 / 20 \<le> a"
  shows "39 / 40 * a \<le> power_iteration_from [[a, 0], [0, b]] [1, 0]"
proof -
  obtain z where z: "(pi_step [[a, 0], [0, b]] ^^ 26) [1, 0] = [z, 0]" "39 / 40 \<le> z" "z \<le> 1"
    using pi_iter_diag_x[OF a, of 1 26] by auto
  have "39 / 40 * a \<le> z * a" using z(2) a by (intro mult_right_mono) simp_all
  then have "39 / 40 * a \<le> \<bar>z * a\<bar>" by simp
  then show ?thesis
    by (simp add: power_iteration_from_def z(1) vecmat_diag vnorm_2x)
qed

lemma apply_update_diag:
  "apply_update capped_cfg [[4, 0], [0, 1]] [0, 0, 0, 0] [0, 1]
   = Inr [[4 / (1 + 1 / 10 ^ 12), 0], [0, 1 / (1 + 1 / 10 ^ 12)]]"
proof -
  have m: "max 1 (power_iteration_from [[4, 0], [0, 1]] [0, 1]) = 1"
    using estimate_diag_low by (simp add: max_def)
  show ?thesis
    by (simp add: apply_update_def cols_def rows_def view_as_def scale_of_def madd_def smul_def
        rescale_def mdiv_def Let_def capped_cfg_def scenario_cfg_def numeral_2_eq_2 m)
qed


lemma update_prev_diag:
  "update_prev capped_cfg (\<lambda>n. if n = 0 then 0 else 1) diag_state =
   Inr (diag_state\<lparr>params := [\<lparr>data = [[4 / (1 + 1 / 10 ^ 12), 0], [0, 1 / (1 + 1 / 10 ^ 12)]],
            grad = Some [[0, 0], [0, 0]], momentum_buffer = Some [[0, 0], [0, 0]]\<rparr>],
          handle := Some (Done 0), rng_pos := 2, trace := [Iterate 0, Gather 0, Apply 0]\<rparr>)"
  by (simp add: update_prev_def wait_def handle_base_def diag_state_def apply_param_def
      randn_def rows_def upt_rec apply_update_diag Let_def)


text \<open>
  The claim as stated fails: the cap holds for the start vector that APPLY drew, not for
  the estimate as such. The parameter is \<open>diag(4, 1)\<close>, the update is zero and the cap is 1.
  APPLY draws the start vector \<open>[0, 1]\<close>, from which the estimate is at most 1, so the
  parameter is only divided by \<open>1 + 1e-12\<close>; the power iteration from the start vector
  \<open>[1, 0]\<close> on the parameter that APPLY leaves estimates more than 3.
\<close>

theorem fresh_estimate_exceeds_cap:
  "\<exists>st'. update_prev capped_cfg (\<lambda>n. if n = 0 then 0 else 1) diag_state = Inr st' \<and>
     data (params st' ! 0) = [[4 / (1 + 1 / 10 ^ 12), 0], [0, 1 / (1 + 1 / 10 ^ 12)]] \<and>
     w_max capped_cfg * sqrt (real (rows (data (params st' ! 0))) / real (cols (data (params st' ! 0)))) = 1 \<and>
     power_iteration_from (data (params st' ! 0)) [0, 1] \<le> 1 \<and>
     3 < power_iteration_from (data (params st' ! 0)) [1, 0]"
proof -
  let ?q = "[[4 / (1 + 1 / 10 ^ 12), 0], [0, 1 / (1 + 1 / 10 ^ 12)]] :: mat"
  have "39 / 40 * (4 / (1 + 1 / 10 ^ 12)) \<le> power_iteration_from ?q [1, 0]"
    by (rule estimate_diag_high) simp
  then have hi: "3 < power_iteration_from ?q [1, 0]" by simp
  have cap: "w_max capped_cfg * sqrt (real (rows ?q) / real (cols ?q)) = 1"
    by (simp add: capped_cfg_def scenario_cfg_def rows_def cols_def)
  have "power_iteration_from (mdiv [[4, 0], [0, 1]] (1 + 1 / 10 ^ 12)) [0, 1]
        \<le> power_iteration_from [[4, 0], [0, 1]] [0, 1] / (1 + 1 / 10 ^ 12)"
    by (rule power_iteration_from_mdiv) simp
  also have "\<dots> \<le> 1 / (1 + 1 / 10 ^ 12)"
    using estimate_diag_low by (intro divide_right_mono) simp_all
  also have "\<dots> \<le> 1" by simp
  finally have lo: "power_iteration_from ?q [0, 1] \<le> 1" by (simp add: mdiv_def)
  show ?thesis
    unfolding update_prev_diag using hi cap lo by simp
qed

text \<open>
  The start vector need not hold a zero. On \<open>diag(1.1, 1)\<close> with the draw
  \<open>[0.0005, 0.5]\<close> the estimate of APPLY is at most 1.003, and the estimate of the rescaled
  parameter from \<open>[1, 0]\<close> is above 1.06.
\<close>

lemma pi_step_diag:
  "pi_step [[a, 0], [0, b]] [x, y] =
     [x * a * a / (vnorm [x * a * a, y * b * b] + 1 / 10 ^ 8),
      y * b * b / (vnorm [x * a * a, y * b * b] + 1 / 10 ^ 8)]"
  by (simp add: pi_step_def mT_def vecmat_diag vdiv_def Let_def)

lemma vnorm_2_sq: "(vnorm [s, t])\<^sup>2 = s\<^sup>2 + t\<^sup>2"
  by (simp add: vnorm_def)

lemma pi_iter_diag_ratio:
  assumes qb: "q * (b * b) = a * a" and b: "0 < b" and y: "0 < y" and x: "x = r * y"
    and n1: "x\<^sup>2 + y\<^sup>2 \<le> 1"
  shows "\<exists>x' y'. (pi_step [[a, 0], [0, b]] ^^ k) [x, y] = [x', y'] \<and> 0 < y' \<and>
           x' = r * q ^ k * y' \<and> x'\<^sup>2 + y'\<^sup>2 \<le> 1"
proof (induction k)
  case 0
  show ?case using y x n1 by simp
next
  case (Suc k)
  then obtain x' y' where it: "(pi_step [[a, 0], [0, b]] ^^ k) [x, y] = [x', y']"
    and y': "0 < y'" and x': "x' = r * q ^ k * y'" and n': "x'\<^sup>2 + y'\<^sup>2 \<le> 1"
    by blast
  define n where "n = vnorm [x' * a * a, y' * b * b]"
  define e :: real where "e = 1 / 10 ^ 8"
  have n0: "0 \<le> n" unfolding n_def by (rule vnorm_nonneg)
  have e0: "0 < e" by (simp add: e_def)
  have ne: "0 < n + e" using n0 e0 by simp
  have nsq: "n\<^sup>2 = (x' * a * a)\<^sup>2 + (y' * b * b)\<^sup>2" unfolding n_def by (rule vnorm_2_sq)
  have st: "(pi_step [[a, 0], [0, b]] ^^ Suc k) [x, y] = [x' * a * a / (n + e), y' * b * b / (n + e)]"
    by (simp add: it pi_step_diag n_def e_def)
  have 1: "0 < y' * b * b / (n + e)" using y' b ne by simp
  have "r * q ^ Suc k * (y' * b * b / (n + e)) = (r * q ^ k * y') * (q * (b * b)) / (n + e)"
    by simp
  also have "\<dots> = x' * (a * a) / (n + e)" by (simp only: qb x')
  also have "\<dots> = x' * a * a / (n + e)" by (simp only: mult.assoc)
  finally have 2: "x' * a * a / (n + e) = r * q ^ Suc k * (y' * b * b / (n + e))" by (rule sym)
  have "(x' * a * a / (n + e))\<^sup>2 + (y' * b * b / (n + e))\<^sup>2 = n\<^sup>2 / (n + e)\<^sup>2"
    by (simp add: nsq power_divide add_divide_distrib)
  also have "\<dots> \<le> 1"
  proof -
    have "n\<^sup>2 \<le> (n + e)\<^sup>2" using n0 e0 by (intro power_mono) simp_all
    then show ?thesis using ne by simp
  qed
  finally have 3: "(x' * a * a / (n + e))\<^sup>2 + (y' * b * b / (n + e))\<^sup>2 \<le> 1" .
  show ?case unfolding st using 1 2 3 by blast
qed

lemma estimate_diag_ratio:
  fixes a r0 x y e1 :: real
  assumes y: "0 < y" and x: "x = r0 * y" and n1: "x\<^sup>2 + y\<^sup>2 \<le> 1" and e1: "0 \<le> e1"
    and num: "(r0 * (a * a) ^ 26)\<^sup>2 * a\<^sup>2 + 1 \<le> e1\<^sup>2 * (1 + (r0 * (a * a) ^ 26)\<^sup>2)"
  shows "power_iteration_from [[a, 0], [0, 1]] [x, y] \<le> e1"
proof -
  define r where "r = r0 * (a * a) ^ 26"
  have qb: "(a * a) * (1 * 1) = a * (a::real)" by simp
  obtain x' y' where it: "(pi_step [[a, 0], [0, 1]] ^^ 26) [x, y] = [x', y']"
    and y': "0 < y'" and x': "x' = r * y'" and n': "x'\<^sup>2 + y'\<^sup>2 \<le> 1"
    using pi_iter_diag_ratio[OF qb _ y x n1, of 26] unfolding r_def by auto
  have n2: "y'\<^sup>2 * (1 + r\<^sup>2) \<le> 1" using n' by (simp add: x' power_mult_distrib algebra_simps)
  have "(x' * a)\<^sup>2 + (y' * 1)\<^sup>2 = y'\<^sup>2 * (r\<^sup>2 * a\<^sup>2 + 1)"
    by (simp add: x' power_mult_distrib algebra_simps)
  also have "\<dots> \<le> y'\<^sup>2 * (e1\<^sup>2 * (1 + r\<^sup>2))"
    using num unfolding r_def by (intro mult_left_mono) simp_all
  also have "\<dots> = e1\<^sup>2 * (y'\<^sup>2 * (1 + r\<^sup>2))" by simp
  also have "\<dots> \<le> e1\<^sup>2 * 1" using n2 by (intro mult_left_mono) simp_all
  finally have "(x' * a)\<^sup>2 + (y' * 1)\<^sup>2 \<le> e1\<^sup>2" by simp
  then have "sqrt ((x' * a)\<^sup>2 + (y' * 1)\<^sup>2) \<le> e1" using e1 by (intro real_le_lsqrt) simp_all
  then show ?thesis
    by (simp add: power_iteration_from_def it vecmat_diag vnorm_def)
qed


lemma estimate_generic_low:
  "power_iteration_from [[11 / 10, 0], [0, 1]] [1 / 2000, 1 / 2] \<le> 1003 / 1000"
  by (rule estimate_diag_ratio[where ?r0.0 = "1 / 1000"]) (simp_all add: power2_eq_square power_divide)

lemma generic_start_exceeds_cap:
  "\<exists>q. apply_update capped_cfg [[11 / 10, 0], [0, 1]] [0, 0, 0, 0] [1 / 2000, 1 / 2] = Inr q \<and>
       w_max capped_cfg * scale_of q = 1 \<and> 53 / 50 < power_iteration_from q [1, 0]"
proof -
  define d where
    "d = max 1 (power_iteration_from [[11 / 10, 0], [0, 1]] [1 / 2000, 1 / 2]) + 1 / 10 ^ 12"
  have d1: "1 \<le> d" by (simp add: d_def add_increasing2)
  have d2: "d \<le> 1004 / 1000" using estimate_generic_low by (simp add: d_def)
  let ?q = "[[11 / 10 / d, 0], [0, 1 / d]] :: mat"
  have ap: "apply_update capped_cfg [[11 / 10, 0], [0, 1]] [0, 0, 0, 0] [1 / 2000, 1 / 2] = Inr ?q"
    by (simp add: apply_update_def cols_def rows_def view_as_def scale_of_def madd_def smul_def
        rescale_def mdiv_def Let_def capped_cfg_def scenario_cfg_def numeral_2_eq_2 d_def)
  have a: "109 / 100 \<le> 11 / 10 / d" using d1 d2 by (simp add: field_simps)
  then have "21 / 20 \<le> 11 / 10 / d" by simp
  then have "39 / 40 * (11 / 10 / d) \<le> power_iteration_from ?q [1, 0]"
    by (rule estimate_diag_high)
  moreover have "39 / 40 * (109 / 100) \<le> 39 / 40 * (11 / 10 / d)"
    using a by (intro mult_left_mono) simp_all
  ultimately have hi: "53 / 50 < power_iteration_from ?q [1, 0]" by simp
  have cap: "w_max capped_cfg * scale_of ?q = 1"
    by (simp add: capped_cfg_def scenario_cfg_def scale_of_def rows_def cols_def)
  show ?thesis using ap cap hi by blast
qed

end
